theory Spec2Isabelle
  imports Main "HOL-Library.Multiset" "HOL-Library.AList"
begin

section \<open>Data model of \<open>src/rrbac.js\<close>\<close>

text \<open>
  JavaScript objects are compared by reference. A \<open>Resource\<close> or \<open>Role\<close> object is
  therefore modelled by its position in a store (the list of all objects constructed so
  far, in construction order); a reference is that position. The \<open>id\<close> string given to a
  constructor is never read by the algorithms and is left out.

  A JavaScript \<open>Set\<close> is a list without repetition in insertion order, a \<open>Map\<close> an
  association list in insertion order.
\<close>

type_synonym rid = nat
type_synonym role = nat
type_synonym action = string

text \<open>Class \<open>Role\<close>: the field \<open>children\<close> is named \<open>role_children\<close> here, since the
  name \<open>children\<close> is taken by the field of \<open>Resource\<close>.\<close>

record Role =
  parents :: "role list"
  role_children :: "role list"

record Resource =
  parent :: "rid option"
  children :: "rid list"
  rwp :: "(action \<times> role list) list"
  erwp :: "(action \<times> role list) list"
  acpn :: "rid option"
  accn :: "rid list"

record state =
  resources :: "Resource list"
  roles :: "Role list"

definition init :: state where
  "init = \<lparr>resources = [], roles = []\<rparr>"

definition new_Role :: Role where
  "new_Role = \<lparr>parents = [], role_children = []\<rparr>"

definition new_Resource :: Resource where
  "new_Resource = \<lparr>parent = None, children = [], rwp = [], erwp = [], acpn = None, accn = []\<rparr>"

text \<open>Dereferencing. A reference that no constructor has handed out denotes no object;
  reading it gives a freshly constructed object, and writing to it (\<open>xs[i := v]\<close>) does
  nothing. The program can never hold such a reference.\<close>

definition role_at :: "Role list \<Rightarrow> role \<Rightarrow> Role" where
  "role_at rs r = (if r < length rs then rs ! r else new_Role)"

definition node_at :: "Resource list \<Rightarrow> rid \<Rightarrow> Resource" where
  "node_at h n = (if n < length h then h ! n else new_Resource)"

text \<open>\<open>Set.prototype.add\<close>.\<close>

definition set_add :: "'a \<Rightarrow> 'a list \<Rightarrow> 'a list" where
  "set_add x xs = (if x \<in> set xs then xs else xs @ [x])"

text \<open>\<open>m.get(action) || new Set()\<close>, also the reading of \<open>m.get(action)?.has(role)\<close>:
  an action without an entry has no roles.\<close>

definition get_roles :: "(action \<times> role list) list \<Rightarrow> action \<Rightarrow> role list" where
  "get_roles m a = (case map_of m a of None \<Rightarrow> [] | Some rs \<Rightarrow> rs)"

section \<open>Constructors and hierarchy construction\<close>

definition newResource :: "state \<Rightarrow> state" where
  "newResource s = s\<lparr>resources := resources s @ [new_Resource]\<rparr>"

definition newRole :: "state \<Rightarrow> state" where
  "newRole s = s\<lparr>roles := roles s @ [new_Role]\<rparr>"

text \<open>\<open>Resource.addChild\<close>: \<open>childNode.parent = this; this.children.push(childNode)\<close>.\<close>

definition addChild :: "state \<Rightarrow> rid \<Rightarrow> rid \<Rightarrow> state" where
  "addChild s this childNode =
    (let h = resources s;
         h1 = h[childNode := (node_at h childNode)\<lparr>parent := Some this\<rparr>];
         h2 = h1[this := (node_at h1 this)\<lparr>children := children (node_at h1 this) @ [childNode]\<rparr>]
     in s\<lparr>resources := h2\<rparr>)"

text \<open>\<open>Role.addParent\<close>: \<open>this.parents.add(parentRole); parentRole.children.add(this)\<close>.\<close>

definition addParent :: "state \<Rightarrow> role \<Rightarrow> role \<Rightarrow> state" where
  "addParent s this parentRole =
    (let rs = roles s;
         rs1 = rs[this := (role_at rs this)\<lparr>parents := set_add parentRole (parents (role_at rs this))\<rparr>];
         rs2 = rs1[parentRole := (role_at rs1 parentRole)
                     \<lparr>role_children := set_add this (role_children (role_at rs1 parentRole))\<rparr>]
     in s\<lparr>roles := rs2\<rparr>)"

section \<open>\<open>Role.getAncestors\<close>\<close>

text \<open>The \<open>while (queue.length > 0)\<close> loop: \<open>queue.shift()\<close> takes the head, a role not yet
  in \<open>ancestors\<close> is added and its parents are pushed at the end of the queue.\<close>

function getAncestors_loop :: "Role list \<Rightarrow> role list \<Rightarrow> role list \<Rightarrow> role list" where
  "getAncestors_loop rs [] ancestors = ancestors"
| "getAncestors_loop rs (current # queue) ancestors =
    (if current \<in> set ancestors then getAncestors_loop rs queue ancestors
     else getAncestors_loop rs (queue @ parents (role_at rs current)) (ancestors @ [current]))"
  by pat_completeness auto

text \<open>The loop ends on every store: a role enters \<open>ancestors\<close> at most once, and
  between two such steps the queue gets shorter. The roles that can enter are those that
  occur in some \<open>parents\<close> set, or in the queue.\<close>

definition all_parents :: "Role list \<Rightarrow> role set" where
  "all_parents rs = (\<Union>x \<in> set rs. set (parents x))"

lemma finite_all_parents: "finite (all_parents rs)"
  by (simp add: all_parents_def)

lemma parents_role_at_subset: "set (parents (role_at rs r)) \<subseteq> all_parents rs"
proof (cases "r < length rs")
  case True
  then have "rs ! r \<in> set rs" by simp
  then have "set (parents (rs ! r)) \<subseteq> all_parents rs"
    unfolding all_parents_def by blast
  then show ?thesis using True by (simp add: role_at_def)
next
  case False
  then show ?thesis by (simp add: role_at_def new_Role_def)
qed

lemma getAncestors_measure_skip:
  "card ((all_parents rs \<union> set queue) - set ancestors)
     \<le> card ((all_parents rs \<union> set (current # queue)) - set ancestors)"
  by (intro card_mono) (auto simp: finite_all_parents)

lemma getAncestors_measure_visit:
  assumes "current \<notin> set ancestors"
  shows "card ((all_parents rs \<union> set (queue @ parents (role_at rs current))) - set (ancestors @ [current]))
           < card ((all_parents rs \<union> set (current # queue)) - set ancestors)"
proof -
  let ?A = "(all_parents rs \<union> set (queue @ parents (role_at rs current))) - set (ancestors @ [current])"
  let ?B = "(all_parents rs \<union> set (current # queue)) - set ancestors"
  have "?A \<subseteq> ?B - {current}"
    using parents_role_at_subset[of rs current] by auto
  moreover have "current \<in> ?B" using assms by simp
  ultimately have "?A \<subset> ?B" by blast
  then show ?thesis
    by (intro psubset_card_mono) (simp_all add: finite_all_parents)
qed

termination getAncestors_loop
proof (relation "measures [\<lambda>(rs, queue, ancestors). card ((all_parents rs \<union> set queue) - set ancestors),
                           \<lambda>(rs, queue, ancestors). length queue]", goal_cases)
  case 1
  show ?case by simp
next
  case 2
  then show ?case
    using getAncestors_measure_skip le_neq_implies_less by (fastforce simp: less_le)
next
  case 3
  then show ?case
    using getAncestors_measure_visit by simp
qed

definition getAncestors :: "Role list \<Rightarrow> role \<Rightarrow> role list" where
  "getAncestors rs this = getAncestors_loop rs (parents (role_at rs this)) []"

section \<open>Loops that may not return\<close>

text \<open>A \<open>for (const x of xs)\<close> loop whose body may not return: the state is threaded
  through the iterations, and \<open>None\<close> (the body never returned) ends the loop.\<close>

primrec for_each :: "'a list \<Rightarrow> ('a \<Rightarrow> 's \<Rightarrow> 's option) \<Rightarrow> 's \<Rightarrow> 's option" where
  "for_each [] body s = Some s"
| "for_each (x # xs) body s = Option.bind (body x s) (for_each xs body)"

lemma for_each_mono [partial_function_mono]:
  assumes "\<And>x s. mono_option (\<lambda>f. B f x s)"
  shows "mono_option (\<lambda>f. for_each xs (B f) s)"
proof (induction xs arbitrary: s)
  case Nil
  show ?case by (simp add: option.const_mono)
next
  case (Cons x xs)
  show ?case by (simp, rule bind_mono, rule assms, rule Cons.IH)
qed

section \<open>\<open>Resource.traverseSubtree\<close>\<close>

text \<open>The breadth-first loop over \<open>queue\<close>. The callback is a function on the store; the
  children of the current node are read after the callback has run, as in the source.
  On a cyclic \<open>children\<close> structure the loop never ends: the result is \<open>None\<close>.\<close>

partial_function (option) traverseSubtree_loop ::
  "(rid \<Rightarrow> Resource list \<Rightarrow> Resource list) \<Rightarrow> rid list \<Rightarrow> Resource list \<Rightarrow> Resource list option" where
  "traverseSubtree_loop callback queue h =
    (case queue of
       [] \<Rightarrow> Some h
     | currentNode # rest \<Rightarrow>
         (let h' = callback currentNode h
          in traverseSubtree_loop callback (rest @ children (node_at h' currentNode)) h'))"

declare traverseSubtree_loop.simps [code]

definition traverseSubtree ::
  "rid \<Rightarrow> (rid \<Rightarrow> Resource list \<Rightarrow> Resource list) \<Rightarrow> Resource list \<Rightarrow> Resource list option" where
  "traverseSubtree this callback h = traverseSubtree_loop callback [this] h"

section \<open>\<open>RRBACSystem.propagateRwp\<close>\<close>

text \<open>\<open>erwp.has(action)\<close>, \<open>erwp.set(action, new Set())\<close> and the additions to the set are
  one update of the association list: the entry of \<open>action\<close> is created if absent and
  holds the old roles followed by the new ones. No call changes an \<open>accn\<close> set, so the
  \<open>for\<close> loop over \<open>resourceNode.accn\<close> runs over the set as it is when the loop starts.\<close>

partial_function (option) propagateRwp ::
  "Resource list \<Rightarrow> rid \<Rightarrow> role list \<Rightarrow> action \<Rightarrow> Resource list option" where
  "propagateRwp h resourceNode newRwp action =
    (let erwpForAction = get_roles (erwp (node_at h resourceNode)) action;
         originalErwpSize = length erwpForAction;
         erwpForAction' = fold set_add newRwp erwpForAction;
         h' = h[resourceNode := (node_at h resourceNode)
                  \<lparr>erwp := AList.update action erwpForAction' (erwp (node_at h resourceNode))\<rparr>]
     in if length erwpForAction' > originalErwpSize
        then for_each (accn (node_at h' resourceNode))
               (\<lambda>childWithPermission h''. propagateRwp h'' childWithPermission newRwp action) h'
        else Some h')"

declare propagateRwp.simps [code]

section \<open>\<open>RRBACSystem.permissionAssignment\<close>\<close>

text \<open>The callback of lines 162-166: \<open>if (node.acpn === originalAcpn) node.acpn = resourceNode\<close>.
  The comparison is reference equality, and \<open>null === null\<close> holds.\<close>

definition repoint :: "rid option \<Rightarrow> rid \<Rightarrow> rid \<Rightarrow> Resource list \<Rightarrow> Resource list" where
  "repoint originalAcpn resourceNode node h =
    (if acpn (node_at h node) = originalAcpn
     then h[node := (node_at h node)\<lparr>acpn := Some resourceNode\<rparr>]
     else h)"

text \<open>The body of \<open>if (wasEmpty)\<close>, lines 150-167.\<close>

definition rewire :: "Resource list \<Rightarrow> rid \<Rightarrow> Resource list option" where
  "rewire h resourceNode =
    (let originalAcpn = acpn (node_at h resourceNode);
         h1 = h[resourceNode := (node_at h resourceNode)\<lparr>acpn := None\<rparr>];
         h2 = (case originalAcpn of
                 None \<Rightarrow> h1
               | Some p \<Rightarrow> h1[p := (node_at h1 p)\<lparr>accn := set_add resourceNode (accn (node_at h1 p))\<rparr>])
     in for_each (children (node_at h2 resourceNode))
          (\<lambda>child. traverseSubtree child (repoint originalAcpn resourceNode)) h2)"

text \<open>Lines 171-174: the explicit permission.\<close>

definition add_explicit :: "Resource list \<Rightarrow> rid \<Rightarrow> role \<Rightarrow> action \<Rightarrow> Resource list" where
  "add_explicit h resourceNode role action =
    h[resourceNode := (node_at h resourceNode)
        \<lparr>rwp := AList.update action (set_add role (get_roles (rwp (node_at h resourceNode)) action))
                  (rwp (node_at h resourceNode))\<rparr>]"

definition permissionAssignment :: "state \<Rightarrow> rid \<Rightarrow> role \<Rightarrow> action \<Rightarrow> state option" where
  "permissionAssignment s resourceNode role action =
    (let h = resources s;
         rolesForAction = get_roles (rwp (node_at h resourceNode)) action
     in if role \<in> set rolesForAction then Some s
        else
          (let wasEmpty = (length (rwp (node_at h resourceNode)) = 0)
           in Option.bind (if wasEmpty then rewire h resourceNode else Some h)
                (\<lambda>h3.
                  (let h4 = add_explicit h3 resourceNode role action;
                       newRwp = fold set_add (getAncestors (roles s) role) [role]
                   in Option.bind (propagateRwp h4 resourceNode newRwp action)
                        (\<lambda>h5. Some (s\<lparr>resources := h5\<rparr>))))))"

section \<open>\<open>RRBACSystem.canAccess\<close>\<close>

text \<open>The \<open>while (currentNode)\<close> loop; \<open>None\<close> is \<open>null\<close>. On a cyclic \<open>acpn\<close> chain
  without the role the loop never ends and the result is \<open>None\<close>.\<close>

partial_function (option) canAccess_loop ::
  "Resource list \<Rightarrow> role \<Rightarrow> rid option \<Rightarrow> action \<Rightarrow> bool option" where
  "canAccess_loop h role currentNode action =
    (case currentNode of
       None \<Rightarrow> Some False
     | Some n \<Rightarrow>
         if role \<in> set (get_roles (erwp (node_at h n)) action) then Some True
         else canAccess_loop h role (acpn (node_at h n)) action)"

declare canAccess_loop.simps [code]

definition canAccess :: "state \<Rightarrow> role \<Rightarrow> rid \<Rightarrow> action \<Rightarrow> bool option" where
  "canAccess s role resource action = canAccess_loop (resources s) role (Some resource) action"

section \<open>Sequences of public operations\<close>

datatype op =
    NewResource
  | NewRole
  | AddChild rid rid
  | AddParent role role
  | Assign rid role action

fun exec :: "op \<Rightarrow> state \<Rightarrow> state option" where
  "exec NewResource s = Some (newResource s)"
| "exec NewRole s = Some (newRole s)"
| "exec (AddChild this childNode) s = Some (addChild s this childNode)"
| "exec (AddParent this parentRole) s = Some (addParent s this parentRole)"
| "exec (Assign resourceNode role action) s = permissionAssignment s resourceNode role action"

definition run :: "op list \<Rightarrow> state \<Rightarrow> state option" where
  "run ops s = for_each ops exec s"

section \<open>Vocabulary of the properties\<close>

text \<open>The seniority edges: \<open>(r, p)\<close> when \<open>p\<close> is in \<open>r.parents\<close>.\<close>

definition senior_rel :: "Role list \<Rightarrow> (role \<times> role) set" where
  "senior_rel rs = {(r, p). p \<in> set (parents (role_at rs r))}"

text \<open>The containment edges: \<open>(n, c)\<close> when \<open>c\<close> is in \<open>n.children\<close>.\<close>

definition child_rel :: "Resource list \<Rightarrow> (rid \<times> rid) set" where
  "child_rel h = {(n, c). c \<in> set (children (node_at h n))}"

text \<open>The first half of \<open>propagateRwp\<close>: the union of \<open>newRwp\<close> into
  \<open>resourceNode.erwp[action]\<close>.\<close>

definition erwp_step :: "Resource list \<Rightarrow> rid \<Rightarrow> role list \<Rightarrow> action \<Rightarrow> Resource list" where
  "erwp_step h n new a =
     h[n := (node_at h n)\<lparr>erwp := AList.update a (fold set_add new (get_roles (erwp (node_at h n)) a))
                                      (erwp (node_at h n))\<rparr>]"

text \<open>No store has lost a node, and no \<open>erwp\<close> set has lost a role.\<close>

definition erwp_grows :: "Resource list \<Rightarrow> Resource list \<Rightarrow> bool" where
  "erwp_grows h h' =
     (length h' = length h \<and>
      (\<forall>m b. set (get_roles (erwp (node_at h m)) b) \<subseteq> set (get_roles (erwp (node_at h' m)) b)))"

text \<open>The number of (node, role) pairs that \<open>newRwp\<close> can still add to the \<open>erwp\<close>
  sets of \<open>action\<close>: the bound of the recursion of \<open>propagateRwp\<close>.\<close>

definition deficit :: "role list \<Rightarrow> action \<Rightarrow> Resource list \<Rightarrow> nat" where
  "deficit new a h = (\<Sum>i<length h. card (set new - set (get_roles (erwp (node_at h i)) a)))"

text \<open>Every explicitly granted role is effective at the same node and action.\<close>

definition explicit_in_effective :: "state \<Rightarrow> bool" where
  "explicit_in_effective s =
     (\<forall>n a. set (get_roles (rwp (node_at (resources s) n)) a)
              \<subseteq> set (get_roles (erwp (node_at (resources s) n)) a))"

fun is_Assign :: "op \<Rightarrow> bool" where
  "is_Assign (Assign n r a) = True"
| "is_Assign _ = False"

fun is_AddParent :: "op \<Rightarrow> bool" where
  "is_AddParent (AddParent r p) = True"
| "is_AddParent _ = False"

text \<open>No node has an explicit permission yet.\<close>

definition no_explicit :: "state \<Rightarrow> bool" where
  "no_explicit s = (\<forall>n. rwp (node_at (resources s) n) = [])"

text \<open>An explicitly granted role is effective at its node together with all its seniors.\<close>

definition closed_under_seniors :: "state \<Rightarrow> bool" where
  "closed_under_seniors s =
     (\<forall>n a r. r \<in> set (get_roles (rwp (node_at (resources s) n)) a) \<longrightarrow>
        insert r ((senior_rel (roles s))\<^sup>+ `` {r}) \<subseteq> set (get_roles (erwp (node_at (resources s) n)) a))"

text \<open>Every \<open>acpn\<close> that is set points to a proper ancestor in the containment structure.\<close>

definition acpn_above :: "Resource list \<Rightarrow> bool" where
  "acpn_above h = (\<forall>n p. acpn (node_at h n) = Some p \<longrightarrow> (p, n) \<in> (child_rel h)\<^sup>+)"

text \<open>Every member of an \<open>accn\<close> set is a strict descendant that carries explicit
  permissions.\<close>

definition accn_below :: "Resource list \<Rightarrow> bool" where
  "accn_below h =
     (\<forall>n c. c \<in> set (accn (node_at h n)) \<longrightarrow> (n, c) \<in> (child_rel h)\<^sup>+ \<and> rwp (node_at h c) \<noteq> [])"

text \<open>What a traversal with the callback of \<open>permissionAssignment\<close> may do: it
  keeps the containment structure and sets the \<open>acpn\<close> of some nodes of \<open>D\<close> to \<open>r\<close>.\<close>

definition repointed :: "rid \<Rightarrow> rid set \<Rightarrow> Resource list \<Rightarrow> Resource list \<Rightarrow> bool" where
  "repointed r D h h' =
     (map children h' = map children h \<and>
      (\<forall>m. node_at h' m = node_at h m
           \<or> (m \<in> D \<and> node_at h' m = (node_at h m)\<lparr>acpn := Some r\<rparr>)))"

text \<open>Two small states: \<open>root \<rightarrow> child\<close> with two unrelated roles, and the same tree
  with the three roles of a seniority cycle \<open>0 \<rightarrow> 1 \<rightarrow> 2 \<rightarrow> 0\<close>.\<close>

definition tree2 :: state where
  "tree2 = addChild (newRole (newRole (newResource (newResource init)))) 0 1"

definition cycle_state :: state where
  "cycle_state =
     addParent (addParent (addParent (addChild
       (newRole (newRole (newRole (newResource (newResource init))))) 0 1) 0 1) 1 2) 2 0"

section \<open>Properties\<close>

subsection \<open>The ancestor closure\<close>

lemma getAncestors_loop_contains:
  "set ancestors \<union> set queue \<subseteq> set (getAncestors_loop rs queue ancestors)"
  by (induction rs queue ancestors rule: getAncestors_loop.induct) auto

lemma getAncestors_loop_sound:
  "set (getAncestors_loop rs queue ancestors) \<subseteq> set ancestors \<union> (senior_rel rs)\<^sup>* `` set queue"
proof (induction rs queue ancestors rule: getAncestors_loop.induct)
  case (1 rs ancestors)
  show ?case by simp
next
  case (2 rs current queue ancestors)
  show ?case
  proof (cases "current \<in> set ancestors")
    case True
    with 2 show ?thesis by auto
  next
    case False
    have step: "(senior_rel rs)\<^sup>* `` set (parents (role_at rs current)) \<subseteq> (senior_rel rs)\<^sup>* `` {current}"
      by (auto simp: senior_rel_def intro: converse_rtrancl_into_rtrancl)
    from False 2 have "set (getAncestors_loop rs (current # queue) ancestors)
        \<subseteq> set (ancestors @ [current]) \<union> (senior_rel rs)\<^sup>* `` set (queue @ parents (role_at rs current))"
      by simp
    also have "\<dots> \<subseteq> set ancestors \<union> (senior_rel rs)\<^sup>* `` set (current # queue)"
      using step by auto
    finally show ?thesis .
  qed
qed

lemma getAncestors_loop_closed:
  assumes "\<forall>x \<in> set ancestors. \<forall>y. (x, y) \<in> senior_rel rs \<longrightarrow> y \<in> set ancestors \<union> set queue"
  shows "\<forall>x \<in> set (getAncestors_loop rs queue ancestors). \<forall>y. (x, y) \<in> senior_rel rs
            \<longrightarrow> y \<in> set (getAncestors_loop rs queue ancestors)"
  using assms
proof (induction rs queue ancestors rule: getAncestors_loop.induct)
  case (1 rs ancestors)
  then show ?case by simp
next
  case (2 rs current queue ancestors)
  show ?case
  proof (cases "current \<in> set ancestors")
    case True
    have "\<forall>x \<in> set ancestors. \<forall>y. (x, y) \<in> senior_rel rs \<longrightarrow> y \<in> set ancestors \<union> set queue"
      using "2.prems" True by auto
    with 2 True show ?thesis by simp
  next
    case False
    have "\<forall>x \<in> set (ancestors @ [current]). \<forall>y. (x, y) \<in> senior_rel rs
            \<longrightarrow> y \<in> set (ancestors @ [current]) \<union> set (queue @ parents (role_at rs current))"
      using "2.prems" by (auto simp: senior_rel_def)
    with 2 False show ?thesis by simp
  qed
qed

lemma getAncestors_loop_distinct:
  "distinct ancestors \<Longrightarrow> distinct (getAncestors_loop rs queue ancestors)"
  by (induction rs queue ancestors rule: getAncestors_loop.induct) auto

lemma getAncestors_complete:
  assumes "(r, q) \<in> (senior_rel rs)\<^sup>+"
  shows "q \<in> set (getAncestors rs r)"
  using assms
proof (induction rule: trancl_induct)
  case (base y)
  then have "y \<in> set (parents (role_at rs r))" by (simp add: senior_rel_def)
  then show ?case
    unfolding getAncestors_def using getAncestors_loop_contains[of "[]" "parents (role_at rs r)" rs] by auto
next
  case (step y z)
  have "\<forall>x \<in> set (getAncestors rs r). \<forall>y. (x, y) \<in> senior_rel rs \<longrightarrow> y \<in> set (getAncestors rs r)"
    unfolding getAncestors_def by (rule getAncestors_loop_closed) simp
  with step show ?case by blast
qed

lemma getAncestors_sound:
  assumes "q \<in> set (getAncestors rs r)"
  shows "(r, q) \<in> (senior_rel rs)\<^sup>+"
proof -
  from assms getAncestors_loop_sound[of rs "parents (role_at rs r)" "[]"]
  obtain p where p: "p \<in> set (parents (role_at rs r))" "(p, q) \<in> (senior_rel rs)\<^sup>*"
    unfolding getAncestors_def by auto
  then have "(r, p) \<in> senior_rel rs" by (simp add: senior_rel_def)
  with p show ?thesis by (rule_tac rtrancl_into_trancl2)
qed

text \<open>
  C6: \<open>Role.getAncestors\<close> terminates on every role store, cyclic or not (it is a total
  function: the termination proof above bounds the loop by the roles not yet visited), and
  the roles it returns are exactly those reachable from the given role by one or more
  \<open>parents\<close> edges. The result is a list without repetition, so the set is finite, and
  it is a function of the store and the role.
\<close>

theorem getAncestors_reachable:
  "set (getAncestors rs r) = {q. (r, q) \<in> (senior_rel rs)\<^sup>+} \<and> distinct (getAncestors rs r)"
  using getAncestors_sound getAncestors_complete getAncestors_loop_distinct[of "[]"]
  by (auto simp: getAncestors_def)

text \<open>The two-cycle of the test suite: \<open>A.addParent(B); B.addParent(A)\<close>.\<close>

theorem getAncestors_reachable_witness:
  "getAncestors (roles (addParent (addParent (newRole (newRole init)) 0 1) 1 0)) 0 = [1, 0]
   \<and> {q. (0, q) \<in> (senior_rel (roles (addParent (addParent (newRole (newRole init)) 0 1) 1 0)))\<^sup>+} = {0, 1}"
proof -
  have e: "getAncestors (roles (addParent (addParent (newRole (newRole init)) 0 1) 1 0)) 0 = [1, 0]"
    by code_simp
  show ?thesis
    using getAncestors_reachable[of "roles (addParent (addParent (newRole (newRole init)) 0 1) 1 0)" 0]
    unfolding e by auto
qed

subsection \<open>Stores\<close>

lemma node_at_update:
  "node_at (h[n := v]) m = (if m = n \<and> n < length h then v else node_at h m)"
  by (auto simp: node_at_def)

lemma map_update_same:
  assumes "f v = f (node_at h n)"
  shows "map f (h[n := v]) = map f h"
proof (cases "n < length h")
  case True
  then show ?thesis using assms by (simp add: map_update node_at_def list_update_same_conv)
next
  case False
  then show ?thesis by (simp add: list_update_beyond)
qed

lemma node_at_map_eq:
  assumes "map f h' = map f h"
  shows "f (node_at h' n) = f (node_at h n)"
proof -
  have len: "length h' = length h" using assms by (rule map_eq_imp_length_eq)
  show ?thesis
  proof (cases "n < length h")
    case True
    then have "f (h' ! n) = map f h' ! n" "f (h ! n) = map f h ! n" using len by simp_all
    then have "f (h' ! n) = f (h ! n)" using assms by metis
    then show ?thesis using True len by (simp add: node_at_def)
  next
    case False
    then show ?thesis using len by (simp add: node_at_def)
  qed
qed

lemma get_roles_update:
  "get_roles (AList.update a v m) b = (if b = a then v else get_roles m b)"
  by (simp add: get_roles_def update_conv')

lemma set_add_set: "set (set_add x xs) = insert x (set xs)"
  by (auto simp: set_add_def)

lemma fold_set_add_set: "set (fold set_add new xs) = set xs \<union> set new"
  by (induction new arbitrary: xs) (auto simp: set_add_set)

lemma fold_set_add_append:
  "\<exists>ys. fold set_add new xs = xs @ ys \<and> set ys = set new - set xs \<and> distinct ys"
proof (induction new arbitrary: xs)
  case Nil
  show ?case by simp
next
  case (Cons x new)
  show ?case
  proof (cases "x \<in> set xs")
    case True
    then show ?thesis using Cons[of xs] by (auto simp: set_add_def)
  next
    case False
    from Cons[of "xs @ [x]"] obtain ys where
      ys: "fold set_add new (xs @ [x]) = (xs @ [x]) @ ys" "set ys = set new - set (xs @ [x])" "distinct ys"
      by blast
    have "fold set_add (x # new) xs = xs @ (x # ys)" using False ys by (simp add: set_add_def)
    moreover have "set (x # ys) = set (x # new) - set xs" using False ys by auto
    moreover have "distinct (x # ys)" using ys by auto
    ultimately show ?thesis by blast
  qed
qed

lemma fold_set_add_length:
  "length (fold set_add new xs) = length xs + card (set new - set xs)"
proof -
  from fold_set_add_append[of new xs] obtain ys where
    e: "fold set_add new xs = xs @ ys" and sys: "set ys = set new - set xs" and d: "distinct ys"
    by (elim exE conjE)
  have "length ys = card (set ys)" using d by (simp add: distinct_card)
  then have "length (xs @ ys) = length xs + card (set new - set xs)" by (simp add: sys)
  then show ?thesis by (simp only: e)
qed

lemma fold_set_add_grows:
  "(length xs < length (fold set_add new xs)) = (\<not> set new \<subseteq> set xs)"
proof -
  have "(0 < card (set new - set xs)) = (set new - set xs \<noteq> {})"
    by (simp add: card_gt_0_iff)
  then show ?thesis by (auto simp: fold_set_add_length)
qed

subsection \<open>Loops\<close>

lemma for_each_invariant:
  assumes "for_each xs body s = Some s'" and "I s"
    and "\<And>x t t'. x \<in> set xs \<Longrightarrow> I t \<Longrightarrow> body x t = Some t' \<Longrightarrow> I t'"
  shows "I s'"
  using assms
proof (induction xs arbitrary: s)
  case Nil
  then show ?case by simp
next
  case (Cons x xs)
  from Cons.prems(1) obtain t where t: "body x s = Some t" "for_each xs body t = Some s'"
    by (auto simp: bind_eq_Some_conv)
  have "I t" using Cons.prems(2) Cons.prems(3)[of x s t] t(1) by simp
  show ?case
  proof (rule Cons.IH[OF t(2) \<open>I t\<close>])
    fix y u u'
    assume "y \<in> set xs" "I u" "body y u = Some u'"
    then show "I u'" using Cons.prems(3)[of y u u'] by simp
  qed
qed

lemma for_each_returns:
  assumes "I s"
    and "\<And>x t. x \<in> set xs \<Longrightarrow> I t \<Longrightarrow> \<exists>t'. body x t = Some t' \<and> I t'"
  shows "\<exists>s'. for_each xs body s = Some s' \<and> I s'"
  using assms
proof (induction xs arbitrary: s)
  case Nil
  then show ?case by simp
next
  case (Cons x xs)
  from Cons.prems obtain t where t: "body x s = Some t" "I t" by fastforce
  from Cons.IH[OF t(2)] Cons.prems(2) obtain s' where "for_each xs body t = Some s'" "I s'"
    by auto
  then show ?case using t by simp
qed

subsection \<open>What the traversal leaves alone\<close>

lemma traverseSubtree_loop_preserves:
  assumes "traverseSubtree_loop callback queue h = Some h'"
    and "\<And>n t. map f (callback n t) = map f t"
  shows "map f h' = map f h"
proof -
  have "(\<forall>n t. map f (callback n t) = map f t) \<longrightarrow> map f h' = map f h"
  proof (rule traverseSubtree_loop.raw_induct[where P = "\<lambda>cb q t t'.
            (\<forall>n t. map f (cb n t) = map f t) \<longrightarrow> map f t' = map f t", OF _ assms(1)])
    fix loop cb q t t'
    assume IH: "\<And>cb q t t'. loop cb q t = Some t' \<Longrightarrow>
                  (\<forall>n t. map f (cb n t) = map f t) \<longrightarrow> map f t' = map f t"
      and eq: "(case q of [] \<Rightarrow> Some t
                | currentNode # rest \<Rightarrow>
                    let h' = cb currentNode t
                    in loop cb (rest @ children (node_at h' currentNode)) h') = Some t'"
    show "(\<forall>n t. map f (cb n t) = map f t) \<longrightarrow> map f t' = map f t"
    proof (cases q)
      case Nil
      with eq show ?thesis by simp
    next
      case (Cons currentNode rest)
      with eq have "loop cb (rest @ children (node_at (cb currentNode t) currentNode))
                        (cb currentNode t) = Some t'"
        by (simp add: Let_def)
      from IH[OF this] show ?thesis by simp
    qed
  qed
  with assms(2) show ?thesis by blast
qed

lemma repoint_preserves:
  assumes "\<And>x v. f (x\<lparr>acpn := v\<rparr>) = f x"
  shows "map f (repoint originalAcpn resourceNode node h) = map f h"
  unfolding repoint_def by (simp add: map_update_same assms)

lemma rewire_preserves:
  assumes "rewire h resourceNode = Some h'"
    and "\<And>x v. f (x\<lparr>acpn := v\<rparr>) = f x" and "\<And>x v. f (x\<lparr>accn := v\<rparr>) = f x"
  shows "map f h' = map f h"
proof -
  define originalAcpn where "originalAcpn = acpn (node_at h resourceNode)"
  define h1 where "h1 = h[resourceNode := (node_at h resourceNode)\<lparr>acpn := None\<rparr>]"
  define h2 where "h2 = (case originalAcpn of None \<Rightarrow> h1
      | Some p \<Rightarrow> h1[p := (node_at h1 p)\<lparr>accn := set_add resourceNode (accn (node_at h1 p))\<rparr>])"
  have loop: "for_each (children (node_at h2 resourceNode))
          (\<lambda>child. traverseSubtree child (repoint originalAcpn resourceNode)) h2 = Some h'"
    using assms(1) unfolding rewire_def Let_def h2_def h1_def originalAcpn_def .
  have "map f h1 = map f h" unfolding h1_def by (simp add: map_update_same assms(2))
  moreover have "map f h2 = map f h1"
    unfolding h2_def by (simp add: map_update_same assms(3) split: option.split)
  moreover have "map f h' = map f h2"
  proof (rule for_each_invariant[OF loop, where I = "\<lambda>t. map f t = map f h2"])
    show "map f h2 = map f h2" ..
  next
    fix x t t'
    assume "map f t = map f h2" "traverseSubtree x (repoint originalAcpn resourceNode) t = Some t'"
    then show "map f t' = map f h2"
      using traverseSubtree_loop_preserves[of "repoint originalAcpn resourceNode" "[x]" t t' f]
      by (simp add: traverseSubtree_def repoint_preserves assms(2))
  qed
  ultimately show ?thesis by simp
qed

subsection \<open>What the propagation changes\<close>



lemma erwp_grows_refl: "erwp_grows h h"
  by (simp add: erwp_grows_def)

lemma erwp_grows_trans: "erwp_grows h t \<Longrightarrow> erwp_grows t u \<Longrightarrow> erwp_grows h u"
  unfolding erwp_grows_def by (metis subset_trans)

lemma erwp_step_grows: "erwp_grows h (erwp_step h n new a)"
  by (auto simp: erwp_grows_def erwp_step_def node_at_update get_roles_update fold_set_add_set)

lemma erwp_step_preserves:
  assumes "\<And>x v. f (x\<lparr>erwp := v\<rparr>) = f x"
  shows "map f (erwp_step h n new a) = map f h"
  unfolding erwp_step_def by (simp add: map_update_same assms)

lemma erwp_step_at:
  "n < length h \<Longrightarrow> set new \<subseteq> set (get_roles (erwp (node_at (erwp_step h n new a) n)) a)"
  by (simp add: erwp_step_def node_at_update get_roles_update fold_set_add_set)

lemma propagateRwp_unfold:
  "propagateRwp h n new a =
    (if \<not> set new \<subseteq> set (get_roles (erwp (node_at h n)) a)
     then for_each (accn (node_at (erwp_step h n new a) n)) (\<lambda>c t. propagateRwp t c new a)
            (erwp_step h n new a)
     else Some (erwp_step h n new a))"
  by (subst propagateRwp.simps) (simp add: Let_def fold_set_add_grows erwp_step_def)

lemma propagateRwp_frame:
  assumes "propagateRwp h n new a = Some h'"
    and "\<And>x v. f (x\<lparr>erwp := v\<rparr>) = f x"
  shows "erwp_grows h h' \<and> map f h' = map f h"
proof (rule propagateRwp.raw_induct[where P = "\<lambda>h n new a h'. erwp_grows h h' \<and> map f h' = map f h",
        OF _ assms(1)])
  fix rc h n new a h'
  assume IH: "\<And>h n new a h'. rc h n new a = Some h' \<Longrightarrow> erwp_grows h h' \<and> map f h' = map f h"
    and eq: "(let erwpForAction = get_roles (erwp (node_at h n)) a;
                  originalErwpSize = length erwpForAction;
                  erwpForAction' = fold set_add new erwpForAction;
                  h' = h[n := (node_at h n)\<lparr>erwp := AList.update a erwpForAction' (erwp (node_at h n))\<rparr>]
              in if originalErwpSize < length erwpForAction'
                 then for_each (accn (node_at h' n)) (\<lambda>childWithPermission h''. rc h'' childWithPermission new a) h'
                 else Some h') = Some h'"
  let ?h1 = "erwp_step h n new a"
  have h1: "erwp_grows h ?h1 \<and> map f ?h1 = map f h"
    by (simp add: erwp_step_grows erwp_step_preserves assms(2))
  from eq have eq': "(if \<not> set new \<subseteq> set (get_roles (erwp (node_at h n)) a)
       then for_each (accn (node_at ?h1 n)) (\<lambda>c t. rc t c new a) ?h1 else Some ?h1) = Some h'"
    by (simp add: Let_def fold_set_add_grows erwp_step_def split: if_splits)
  show "erwp_grows h h' \<and> map f h' = map f h"
  proof (cases "set new \<subseteq> set (get_roles (erwp (node_at h n)) a)")
    case True
    with eq' h1 show ?thesis by simp
  next
    case False
    with eq' have loop: "for_each (accn (node_at ?h1 n)) (\<lambda>c t. rc t c new a) ?h1 = Some h'"
      by simp
    show ?thesis
    proof (rule for_each_invariant[OF loop, where I = "\<lambda>t. erwp_grows h t \<and> map f t = map f h"])
      show "erwp_grows h ?h1 \<and> map f ?h1 = map f h" by (rule h1)
    next
      fix c t t'
      assume "erwp_grows h t \<and> map f t = map f h" "rc t c new a = Some t'"
      then show "erwp_grows h t' \<and> map f t' = map f h"
        using IH[of t c new a t'] erwp_grows_trans by auto
    qed
  qed
qed

lemma propagateRwp_at:
  assumes "propagateRwp h n new a = Some h'" and "n < length h"
  shows "set new \<subseteq> set (get_roles (erwp (node_at h' n)) a)"
proof -
  let ?h1 = "erwp_step h n new a"
  have g: "erwp_grows ?h1 h'"
  proof (cases "set new \<subseteq> set (get_roles (erwp (node_at h n)) a)")
    case True
    with assms(1) show ?thesis by (simp add: propagateRwp_unfold erwp_grows_refl)
  next
    case False
    with assms(1) have loop: "for_each (accn (node_at ?h1 n)) (\<lambda>c t. propagateRwp t c new a) ?h1 = Some h'"
      by (simp add: propagateRwp_unfold)
    show ?thesis
    proof (rule for_each_invariant[OF loop, where I = "\<lambda>t. erwp_grows ?h1 t"])
      show "erwp_grows ?h1 ?h1" by (rule erwp_grows_refl)
    next
      fix c t t'
      assume "erwp_grows ?h1 t" "propagateRwp t c new a = Some t'"
      then show "erwp_grows ?h1 t'"
        using propagateRwp_frame[of t c new a t' "\<lambda>x. ()"] erwp_grows_trans by auto
    qed
  qed
  have "set new \<subseteq> set (get_roles (erwp (node_at ?h1 n)) a)"
    using assms(2) by (rule erwp_step_at)
  then show ?thesis using g unfolding erwp_grows_def by blast
qed

subsection \<open>What an assignment changes\<close>

lemma permissionAssignment_cases:
  assumes "permissionAssignment s n r a = Some s'"
  obtains (already) "r \<in> set (get_roles (rwp (node_at (resources s) n)) a)" "s' = s"
  | (fresh) h3 h5 where "r \<notin> set (get_roles (rwp (node_at (resources s) n)) a)"
      "(if rwp (node_at (resources s) n) = [] then rewire (resources s) n else Some (resources s)) = Some h3"
      "propagateRwp (add_explicit h3 n r a) n (fold set_add (getAncestors (roles s) r) [r]) a = Some h5"
      "s' = s\<lparr>resources := h5\<rparr>"
proof (cases "r \<in> set (get_roles (rwp (node_at (resources s) n)) a)")
  case True
  with assms have "s' = s" by (simp add: permissionAssignment_def)
  with True show ?thesis by (rule already)
next
  case False
  with assms obtain h3 where
    h3: "(if rwp (node_at (resources s) n) = [] then rewire (resources s) n else Some (resources s)) = Some h3"
    and rest: "Option.bind (propagateRwp (add_explicit h3 n r a) n (fold set_add (getAncestors (roles s) r) [r]) a)
                 (\<lambda>h5. Some (s\<lparr>resources := h5\<rparr>)) = Some s'"
    by (auto simp: permissionAssignment_def Let_def bind_eq_Some_conv)
  from rest obtain h5 where
    "propagateRwp (add_explicit h3 n r a) n (fold set_add (getAncestors (roles s) r) [r]) a = Some h5"
    "s' = s\<lparr>resources := h5\<rparr>"
    by (auto simp: bind_eq_Some_conv)
  with False h3 show ?thesis by (rule fresh)
qed

lemma pre_rewire_preserves:
  assumes "(if c then rewire h n else Some h) = Some h3"
    and "\<And>x v. f (x\<lparr>acpn := v\<rparr>) = f x" and "\<And>x v. f (x\<lparr>accn := v\<rparr>) = f x"
  shows "map f h3 = map f h"
  using assms rewire_preserves[of h n h3 f] by (auto split: if_splits)

lemma add_explicit_preserves:
  assumes "\<And>x v. f (x\<lparr>rwp := v\<rparr>) = f x"
  shows "map f (add_explicit h n r a) = map f h"
  unfolding add_explicit_def by (simp add: map_update_same assms)

lemma add_explicit_rwp:
  "set (get_roles (rwp (node_at (add_explicit h n r a) m)) b) =
     set (get_roles (rwp (node_at h m)) b) \<union> (if m = n \<and> n < length h \<and> b = a then {r} else {})"
  by (auto simp: add_explicit_def node_at_update get_roles_update set_add_set)

lemma permissionAssignment_roles:
  assumes "permissionAssignment s n r a = Some s'"
  shows "roles s' = roles s"
  using assms by (cases rule: permissionAssignment_cases) simp_all

lemma permissionAssignment_preserves:
  assumes "permissionAssignment s n r a = Some s'"
    and "\<And>x v. f (x\<lparr>acpn := v\<rparr>) = f x" and "\<And>x v. f (x\<lparr>accn := v\<rparr>) = f x"
    and "\<And>x v. f (x\<lparr>rwp := v\<rparr>) = f x" and "\<And>x v. f (x\<lparr>erwp := v\<rparr>) = f x"
  shows "map f (resources s') = map f (resources s)"
  using assms(1)
proof (cases rule: permissionAssignment_cases)
  case already
  then show ?thesis by simp
next
  case (fresh h3 h5)
  have "map f h3 = map f (resources s)"
    using fresh(2) assms(2,3) by (rule pre_rewire_preserves)
  moreover have "map f (add_explicit h3 n r a) = map f h3"
    using assms(4) by (rule add_explicit_preserves)
  moreover have "map f h5 = map f (add_explicit h3 n r a)"
    using propagateRwp_frame[OF fresh(3), of f] assms(5) by simp
  ultimately show ?thesis using fresh(4) by simp
qed

lemma permissionAssignment_length:
  assumes "permissionAssignment s n r a = Some s'"
  shows "length (resources s') = length (resources s)"
  using permissionAssignment_preserves[OF assms, of "\<lambda>x. ()"] map_eq_imp_length_eq by fastforce

lemma permissionAssignment_rwp:
  assumes "permissionAssignment s n r a = Some s'"
  shows "set (get_roles (rwp (node_at (resources s') m)) b) =
     set (get_roles (rwp (node_at (resources s) m)) b)
       \<union> (if m = n \<and> n < length (resources s) \<and> b = a then {r} else {})"
  using assms
proof (cases rule: permissionAssignment_cases)
  case already
  then show ?thesis by auto
next
  case (fresh h3 h5)
  have e3: "map rwp h3 = map rwp (resources s)"
    using fresh(2) by (rule pre_rewire_preserves) simp_all
  have e5: "map rwp h5 = map rwp (add_explicit h3 n r a)"
    using propagateRwp_frame[OF fresh(3), of rwp] by simp
  have "rwp (node_at h5 m) = rwp (node_at (add_explicit h3 n r a) m)"
    using e5 by (rule node_at_map_eq)
  moreover have "rwp (node_at h3 m) = rwp (node_at (resources s) m)"
    using e3 by (rule node_at_map_eq)
  moreover have "length h3 = length (resources s)"
    using e3 by (rule map_eq_imp_length_eq)
  ultimately show ?thesis using fresh(4) by (simp add: add_explicit_rwp)
qed

lemma permissionAssignment_erwp_grows:
  assumes "permissionAssignment s n r a = Some s'"
  shows "erwp_grows (resources s) (resources s')"
  using assms
proof (cases rule: permissionAssignment_cases)
  case already
  then show ?thesis by (simp add: erwp_grows_refl)
next
  case (fresh h3 h5)
  have e3: "map erwp h3 = map erwp (resources s)"
    using fresh(2) by (rule pre_rewire_preserves) simp_all
  have e4: "map erwp (add_explicit h3 n r a) = map erwp h3"
    by (rule add_explicit_preserves) simp
  have e: "map erwp (add_explicit h3 n r a) = map erwp (resources s)" using e3 e4 by simp
  have "erwp_grows (resources s) (add_explicit h3 n r a)"
    unfolding erwp_grows_def using node_at_map_eq[OF e] map_eq_imp_length_eq[OF e] by simp
  moreover have "erwp_grows (add_explicit h3 n r a) h5"
    using propagateRwp_frame[OF fresh(3), of "\<lambda>x. ()"] by simp
  ultimately show ?thesis using fresh(4) erwp_grows_trans by auto
qed

lemma permissionAssignment_erwp_at:
  assumes "permissionAssignment s n r a = Some s'" and "n < length (resources s)"
    and "r \<notin> set (get_roles (rwp (node_at (resources s) n)) a)"
  shows "insert r (set (getAncestors (roles s) r)) \<subseteq> set (get_roles (erwp (node_at (resources s') n)) a)"
  using assms(1)
proof (cases rule: permissionAssignment_cases)
  case already
  with assms(3) show ?thesis by simp
next
  case (fresh h3 h5)
  have "map rwp h3 = map rwp (resources s)"
    using fresh(2) by (rule pre_rewire_preserves) simp_all
  then have "length h3 = length (resources s)" by (rule map_eq_imp_length_eq)
  then have "n < length (add_explicit h3 n r a)" using assms(2) by (simp add: add_explicit_def)
  from propagateRwp_at[OF fresh(3) this] show ?thesis
    using fresh(4) by (simp add: fold_set_add_set)
qed

subsection \<open>Invariants of the public operations\<close>


lemma node_at_append_new: "node_at (h @ [new_Resource]) m = node_at h m"
  by (auto simp: node_at_def nth_append)

lemma addChild_preserves:
  assumes "\<And>x v. f (x\<lparr>parent := v\<rparr>) = f x" and "\<And>x v. f (x\<lparr>children := v\<rparr>) = f x"
  shows "map f (resources (addChild s p c)) = map f (resources s)"
  unfolding addChild_def Let_def by (simp add: map_update_same assms)

lemma exec_explicit_in_effective:
  assumes "explicit_in_effective s" and "exec op s = Some s'"
  shows "explicit_in_effective s'"
proof (cases op)
  case NewResource
  with assms have "s' = newResource s" by simp
  then have "node_at (resources s') n = node_at (resources s) n" for n
    by (simp add: newResource_def node_at_append_new)
  with assms(1) show ?thesis by (simp add: explicit_in_effective_def)
next
  case NewRole
  with assms have "resources s' = resources s" by (auto simp: newRole_def)
  with assms(1) show ?thesis by (simp add: explicit_in_effective_def)
next
  case (AddChild p c)
  have "map rwp (resources (addChild s p c)) = map rwp (resources s)"
    by (rule addChild_preserves) simp_all
  then have r: "rwp (node_at (resources (addChild s p c)) n) = rwp (node_at (resources s) n)" for n
    by (rule node_at_map_eq)
  have "map erwp (resources (addChild s p c)) = map erwp (resources s)"
    by (rule addChild_preserves) simp_all
  then have "erwp (node_at (resources (addChild s p c)) n) = erwp (node_at (resources s) n)" for n
    by (rule node_at_map_eq)
  note this r
  with assms AddChild show ?thesis by (simp add: explicit_in_effective_def)
next
  case (AddParent r p)
  with assms have "resources s' = resources s" by (auto simp: addParent_def Let_def)
  with assms(1) show ?thesis by (simp add: explicit_in_effective_def)
next
  case (Assign n r a)
  with assms have pa: "permissionAssignment s n r a = Some s'" by simp
  show ?thesis unfolding explicit_in_effective_def
  proof (intro allI subsetI)
    fix m b x
    assume x: "x \<in> set (get_roles (rwp (node_at (resources s') m)) b)"
    have g: "set (get_roles (erwp (node_at (resources s) m)) b)
               \<subseteq> set (get_roles (erwp (node_at (resources s') m)) b)"
      using permissionAssignment_erwp_grows[OF pa] by (simp add: erwp_grows_def)
    show "x \<in> set (get_roles (erwp (node_at (resources s') m)) b)"
    proof (cases "x \<in> set (get_roles (rwp (node_at (resources s) m)) b)")
      case True
      then show ?thesis using assms(1) g by (auto simp: explicit_in_effective_def)
    next
      case False
      with x have new: "m = n" "n < length (resources s)" "b = a" "x = r"
        using permissionAssignment_rwp[OF pa, of m b] by (auto split: if_splits)
      with False have "r \<notin> set (get_roles (rwp (node_at (resources s) n)) a)" by simp
      from permissionAssignment_erwp_at[OF pa new(2) this] show ?thesis using new by simp
    qed
  qed
qed

lemma run_invariant:
  assumes "run ops s = Some s'" and "I s"
    and "\<And>op t t'. op \<in> set ops \<Longrightarrow> I t \<Longrightarrow> exec op t = Some t' \<Longrightarrow> I t'"
  shows "I s'"
  using assms unfolding run_def by (rule for_each_invariant)

lemma init_explicit_in_effective: "explicit_in_effective init"
  by (simp add: explicit_in_effective_def init_def node_at_def new_Resource_def get_roles_def)

lemma permissionAssignment_twice:
  assumes "permissionAssignment s n r a = Some s1" and "n < length (resources s)"
  shows "permissionAssignment s1 n r a = Some s1"
proof -
  have "r \<in> set (get_roles (rwp (node_at (resources s1) n)) a)"
    using permissionAssignment_rwp[OF assms(1), of n a] assms(2) by simp
  then show ?thesis by (simp add: permissionAssignment_def)
qed

lemma addParent_resources: "resources (addParent s this parentRole) = resources s"
  by (simp add: addParent_def Let_def)

subsection \<open>Termination\<close>



lemma finite_child_rel: "finite (child_rel h)"
proof -
  have "child_rel h \<subseteq> (\<Union>n \<in> {..<length h}. {n} \<times> set (children (node_at h n)))"
    by (auto simp: child_rel_def node_at_def new_Resource_def split: if_splits)
  moreover have "finite (\<Union>n \<in> {..<length h}. {n} \<times> set (children (node_at h n)))"
    by simp
  ultimately show ?thesis by (rule finite_subset)
qed

lemma child_rel_cong:
  assumes "map children h' = map children h"
  shows "child_rel h' = child_rel h"
  using node_at_map_eq[OF assms] by (simp add: child_rel_def)

lemma traverseSubtree_loop_returns:
  assumes "acyclic (child_rel h0)"
    and "\<And>n t. map children (callback n t) = map children t"
    and "map children h = map children h0"
  shows "\<exists>h'. traverseSubtree_loop callback queue h = Some h'"
proof -
  have "wf ((child_rel h0)\<inverse>)"
    using finite_child_rel assms(1) by (rule finite_acyclic_wf_converse)
  then have "wf (inv_image (mult ((child_rel h0)\<inverse>)) mset)"
    by (intro wf_inv_image wf_mult)
  then show ?thesis using assms(3)
  proof (induction queue arbitrary: h rule: wf_induct_rule)
    case (less queue)
    show ?case
    proof (cases queue)
      case Nil
      then show ?thesis by (subst traverseSubtree_loop.simps) simp
    next
      case (Cons currentNode rest)
      let ?h1 = "callback currentNode h"
      let ?q = "rest @ children (node_at ?h1 currentNode)"
      have c1: "map children ?h1 = map children h0" using assms(2) less.prems by simp
      have "\<forall>k \<in># mset (children (node_at ?h1 currentNode)).
              \<exists>j \<in># {#currentNode#}. (k, j) \<in> (child_rel h0)\<inverse>"
        using child_rel_cong[OF c1] by (auto simp: child_rel_def)
      then have "(mset rest + mset (children (node_at ?h1 currentNode)), mset rest + {#currentNode#})
                   \<in> mult ((child_rel h0)\<inverse>)"
        by (intro one_step_implies_mult) simp_all
      then have "(?q, queue) \<in> inv_image (mult ((child_rel h0)\<inverse>)) mset"
        using Cons by (simp add: inv_image_def)
      from less.IH[OF this c1] obtain h' where "traverseSubtree_loop callback ?q ?h1 = Some h'" ..
      then show ?thesis using Cons by (subst traverseSubtree_loop.simps) (simp add: Let_def)
    qed
  qed
qed

lemma rewire_returns:
  assumes "acyclic (child_rel h)"
  shows "\<exists>h'. rewire h n = Some h'"
proof -
  define originalAcpn where "originalAcpn = acpn (node_at h n)"
  define h1 where "h1 = h[n := (node_at h n)\<lparr>acpn := None\<rparr>]"
  define h2 where "h2 = (case originalAcpn of None \<Rightarrow> h1
      | Some p \<Rightarrow> h1[p := (node_at h1 p)\<lparr>accn := set_add n (accn (node_at h1 p))\<rparr>])"
  have r: "rewire h n = for_each (children (node_at h2 n))
          (\<lambda>child. traverseSubtree child (repoint originalAcpn n)) h2"
    unfolding rewire_def Let_def h2_def h1_def originalAcpn_def ..
  have "map children h1 = map children h" unfolding h1_def by (simp add: map_update_same)
  moreover have "map children h2 = map children h1"
    unfolding h2_def by (simp add: map_update_same split: option.split)
  ultimately have c2: "map children h2 = map children h" by simp
  have "\<exists>h'. for_each (children (node_at h2 n))
          (\<lambda>child. traverseSubtree child (repoint originalAcpn n)) h2 = Some h'
          \<and> map children h' = map children h"
  proof (rule for_each_returns[where I = "\<lambda>t. map children t = map children h"])
    show "map children h2 = map children h" by (rule c2)
  next
    fix x and t :: "Resource list"
    assume t: "map children t = map children h"
    have p: "map children (repoint originalAcpn n m u) = map children u" for m u
      by (rule repoint_preserves) simp
    have "\<exists>t'. traverseSubtree_loop (repoint originalAcpn n) [x] t = Some t'"
      using assms _ t by (rule traverseSubtree_loop_returns) (rule p)
    then obtain t' where t': "traverseSubtree_loop (repoint originalAcpn n) [x] t = Some t'" ..
    have "map children t' = map children t"
      using t' p by (rule traverseSubtree_loop_preserves)
    then show "\<exists>t'. traverseSubtree x (repoint originalAcpn n) t = Some t' \<and> map children t' = map children h"
      using t t' by (simp add: traverseSubtree_def)
  qed
  then show ?thesis using r by auto
qed

lemma deficit_mono:
  assumes "erwp_grows h h'"
  shows "deficit new a h' \<le> deficit new a h"
proof -
  have len: "length h' = length h" using assms by (simp add: erwp_grows_def)
  have "card (set new - set (get_roles (erwp (node_at h' i)) a))
          \<le> card (set new - set (get_roles (erwp (node_at h i)) a))" for i
    using assms by (intro card_mono) (auto simp: erwp_grows_def)
  then show ?thesis unfolding deficit_def len by (intro sum_mono) simp
qed

lemma deficit_step:
  assumes "n < length h" and "\<not> set new \<subseteq> set (get_roles (erwp (node_at h n)) a)"
  shows "deficit new a (erwp_step h n new a) < deficit new a h"
proof -
  let ?h1 = "erwp_step h n new a"
  have len: "length ?h1 = length h" by (simp add: erwp_step_def)
  have le: "card (set new - set (get_roles (erwp (node_at ?h1 i)) a))
          \<le> card (set new - set (get_roles (erwp (node_at h i)) a))" for i
    using erwp_step_grows[of h n new a] by (intro card_mono) (auto simp: erwp_grows_def)
  have "set new - set (get_roles (erwp (node_at ?h1 n)) a) = {}"
    using erwp_step_at[OF assms(1), of new a] by blast
  then have "card (set new - set (get_roles (erwp (node_at ?h1 n)) a)) = 0"
    by (simp only: card.empty)
  moreover have "0 < card (set new - set (get_roles (erwp (node_at h n)) a))"
    using assms(2) by (auto simp: card_gt_0_iff)
  ultimately have lt: "card (set new - set (get_roles (erwp (node_at ?h1 n)) a))
          < card (set new - set (get_roles (erwp (node_at h n)) a))" by linarith
  have "finite {..<length h}" by simp
  moreover have "\<forall>i \<in> {..<length h}. card (set new - set (get_roles (erwp (node_at ?h1 i)) a))
          \<le> card (set new - set (get_roles (erwp (node_at h i)) a))" using le by simp
  moreover have "\<exists>i \<in> {..<length h}. card (set new - set (get_roles (erwp (node_at ?h1 i)) a))
          < card (set new - set (get_roles (erwp (node_at h i)) a))" using lt assms(1) by blast
  ultimately have "(\<Sum>i<length h. card (set new - set (get_roles (erwp (node_at ?h1 i)) a)))
          < (\<Sum>i<length h. card (set new - set (get_roles (erwp (node_at h i)) a)))"
    by (rule sum_strict_mono_ex1)
  then show ?thesis unfolding deficit_def len .
qed

lemma propagateRwp_returns: "\<exists>h'. propagateRwp h n new a = Some h'"
proof (induction h arbitrary: n rule: measure_induct_rule[where f = "deficit new a"])
  case (less h)
  let ?h1 = "erwp_step h n new a"
  show ?case
  proof (cases "set new \<subseteq> set (get_roles (erwp (node_at h n)) a)")
    case True
    then show ?thesis by (simp add: propagateRwp_unfold)
  next
    case False
    have "\<exists>h'. for_each (accn (node_at ?h1 n)) (\<lambda>c t. propagateRwp t c new a) ?h1 = Some h'
            \<and> deficit new a h' \<le> deficit new a ?h1"
    proof (cases "n < length h")
      case True
      have lt: "deficit new a ?h1 < deficit new a h" using True False by (rule deficit_step)
      show ?thesis
      proof (rule for_each_returns[where I = "\<lambda>t. deficit new a t \<le> deficit new a ?h1"])
        show "deficit new a ?h1 \<le> deficit new a ?h1" ..
      next
        fix c t
        assume t: "deficit new a t \<le> deficit new a ?h1"
        then have "deficit new a t < deficit new a h" using lt by simp
        from less.IH[OF this, of c] obtain t' where t': "propagateRwp t c new a = Some t'" ..
        have "erwp_grows t t'" using propagateRwp_frame[OF t', of "\<lambda>x. ()"] by simp
        then have "deficit new a t' \<le> deficit new a t" by (rule deficit_mono)
        then show "\<exists>t'. propagateRwp t c new a = Some t' \<and> deficit new a t' \<le> deficit new a ?h1"
          using t t' by simp
      qed
    next
      case False
      then have "accn (node_at ?h1 n) = []"
        by (simp add: erwp_step_def node_at_def new_Resource_def)
      then show ?thesis by simp
    qed
    then show ?thesis using False by (auto simp: propagateRwp_unfold)
  qed
qed

lemma permissionAssignment_returns:
  assumes "acyclic (child_rel (resources s))"
  shows "\<exists>s'. permissionAssignment s n r a = Some s'"
proof (cases "r \<in> set (get_roles (rwp (node_at (resources s) n)) a)")
  case True
  then show ?thesis by (simp add: permissionAssignment_def)
next
  case False
  obtain h3 where h3: "(if length (rwp (node_at (resources s) n)) = 0 then rewire (resources s) n
                        else Some (resources s)) = Some h3"
    using rewire_returns[OF assms, of n] by (cases "length (rwp (node_at (resources s) n)) = 0") auto
  obtain h5 where "propagateRwp (add_explicit h3 n r a) n (fold set_add (getAncestors (roles s) r) [r]) a = Some h5"
    using propagateRwp_returns by blast
  with False h3 show ?thesis by (simp add: permissionAssignment_def Let_def)
qed

subsection \<open>Seniority closure of the effective permissions\<close>





lemma role_at_append_new: "role_at (rs @ [new_Role]) r = role_at rs r"
  by (auto simp: role_at_def nth_append)

lemma senior_rel_newRole: "senior_rel (roles (newRole s)) = senior_rel (roles s)"
  by (simp add: senior_rel_def newRole_def role_at_append_new)

lemma for_each_append:
  "for_each (xs @ ys) body s = Option.bind (for_each xs body s) (for_each ys body)"
proof (induction xs arbitrary: s)
  case Nil
  show ?case by simp
next
  case (Cons x xs)
  show ?case by (cases "body x s") (simp_all add: Cons.IH)
qed

lemma run_append: "run (xs @ ys) s = Option.bind (run xs s) (run ys)"
proof -
  have "run ys = for_each ys exec" by (rule ext) (simp add: run_def)
  then show ?thesis by (simp add: run_def for_each_append)
qed

lemma exec_no_explicit:
  assumes "no_explicit s" and "\<not> is_Assign op" and "exec op s = Some s'"
  shows "no_explicit s'"
proof (cases op)
  case NewResource
  with assms have "s' = newResource s" by simp
  then have "node_at (resources s') n = node_at (resources s) n" for n
    by (simp add: newResource_def node_at_append_new)
  with assms(1) show ?thesis by (simp add: no_explicit_def)
next
  case NewRole
  with assms have "resources s' = resources s" by (auto simp: newRole_def)
  with assms(1) show ?thesis by (simp add: no_explicit_def)
next
  case (AddChild p c)
  have "map rwp (resources (addChild s p c)) = map rwp (resources s)"
    by (rule addChild_preserves) simp_all
  then have "rwp (node_at (resources (addChild s p c)) n) = rwp (node_at (resources s) n)" for n
    by (rule node_at_map_eq)
  with assms AddChild show ?thesis by (simp add: no_explicit_def)
next
  case (AddParent r p)
  with assms have "resources s' = resources s" by (auto simp: addParent_def Let_def)
  with assms(1) show ?thesis by (simp add: no_explicit_def)
next
  case (Assign n r a)
  with assms(2) show ?thesis by simp
qed

lemma build_no_explicit:
  assumes "run build init = Some s0" and "\<forall>op \<in> set build. \<not> is_Assign op"
  shows "no_explicit s0"
proof (rule run_invariant[OF assms(1), where I = no_explicit])
  show "no_explicit init" by (simp add: no_explicit_def init_def node_at_def new_Resource_def)
next
  fix op t t'
  assume "op \<in> set build" "no_explicit t" "exec op t = Some t'"
  then show "no_explicit t'" using assms(2) exec_no_explicit by blast
qed

lemma no_explicit_closed: "no_explicit s \<Longrightarrow> closed_under_seniors s"
  by (simp add: no_explicit_def closed_under_seniors_def get_roles_def)

lemma permissionAssignment_closed:
  assumes "closed_under_seniors s" and pa: "permissionAssignment s n r a = Some s'"
  shows "closed_under_seniors s'"
  unfolding closed_under_seniors_def
proof (intro allI impI)
  fix m b x
  assume x: "x \<in> set (get_roles (rwp (node_at (resources s') m)) b)"
  have rs: "roles s' = roles s" using pa by (rule permissionAssignment_roles)
  have g: "set (get_roles (erwp (node_at (resources s) m)) b)
             \<subseteq> set (get_roles (erwp (node_at (resources s') m)) b)"
    using permissionAssignment_erwp_grows[OF pa] by (simp add: erwp_grows_def)
  show "insert x ((senior_rel (roles s'))\<^sup>+ `` {x}) \<subseteq> set (get_roles (erwp (node_at (resources s') m)) b)"
  proof (cases "x \<in> set (get_roles (rwp (node_at (resources s) m)) b)")
    case True
    then have "insert x ((senior_rel (roles s))\<^sup>+ `` {x}) \<subseteq> set (get_roles (erwp (node_at (resources s) m)) b)"
      using assms(1) by (simp add: closed_under_seniors_def)
    then show ?thesis using g rs by auto
  next
    case False
    with x have new: "m = n" "n < length (resources s)" "b = a" "x = r"
      using permissionAssignment_rwp[OF pa, of m b] by (auto split: if_splits)
    with False have "r \<notin> set (get_roles (rwp (node_at (resources s) n)) a)" by simp
    from permissionAssignment_erwp_at[OF pa new(2) this]
    have "insert r (set (getAncestors (roles s) r)) \<subseteq> set (get_roles (erwp (node_at (resources s') n)) a)" .
    moreover have "(senior_rel (roles s))\<^sup>+ `` {r} \<subseteq> set (getAncestors (roles s) r)"
      using getAncestors_complete by auto
    ultimately show ?thesis using new rs by auto
  qed
qed

lemma exec_closed:
  assumes "closed_under_seniors s" and "\<not> is_AddParent op" and "exec op s = Some s'"
  shows "closed_under_seniors s'"
proof (cases op)
  case NewResource
  with assms have "s' = newResource s" by simp
  then have "node_at (resources s') n = node_at (resources s) n" "roles s' = roles s" for n
    by (simp_all add: newResource_def node_at_append_new)
  with assms(1) show ?thesis by (simp add: closed_under_seniors_def)
next
  case NewRole
  with assms have "s' = newRole s" by simp
  then have "resources s' = resources s" "senior_rel (roles s') = senior_rel (roles s)"
    by (simp_all add: senior_rel_newRole) (simp add: newRole_def)
  with assms(1) show ?thesis by (simp add: closed_under_seniors_def)
next
  case (AddChild p c)
  have "map rwp (resources (addChild s p c)) = map rwp (resources s)"
    by (rule addChild_preserves) simp_all
  then have r: "rwp (node_at (resources (addChild s p c)) n) = rwp (node_at (resources s) n)" for n
    by (rule node_at_map_eq)
  have "map erwp (resources (addChild s p c)) = map erwp (resources s)"
    by (rule addChild_preserves) simp_all
  then have e: "erwp (node_at (resources (addChild s p c)) n) = erwp (node_at (resources s) n)" for n
    by (rule node_at_map_eq)
  have "roles (addChild s p c) = roles s" by (simp add: addChild_def Let_def)
  with assms AddChild r e show ?thesis by (simp add: closed_under_seniors_def)
next
  case (AddParent r p)
  with assms(2) show ?thesis by simp
next
  case (Assign n r a)
  with assms have "permissionAssignment s n r a = Some s'" by simp
  with assms(1) show ?thesis by (rule permissionAssignment_closed)
qed

text \<open>
  C5: the role hierarchy is linked by \<open>build\<close>, which assigns nothing; \<open>rest\<close> may
  construct, attach and assign but calls no \<open>addParent\<close>. In the state \<open>s1\<close> they reach,
  for a resource \<open>n\<close> and a \<open>senior\<close> reachable from \<open>role\<close> by one or more \<open>parents\<close>
  edges (through a cycle or not): whenever \<open>assign(n, role, X)\<close> returns, \<open>canAccess(senior, n, X)\<close>
  returns true; and the assignment does return when the containment structure is acyclic.
\<close>

theorem senior_can_access:
  assumes "run (build @ rest) init = Some s1"
    and "\<forall>op \<in> set build. \<not> is_Assign op"
    and "\<forall>op \<in> set rest. \<not> is_AddParent op"
    and "n < length (resources s1)"
    and "(role, senior) \<in> (senior_rel (roles s1))\<^sup>+"
  shows "(\<forall>s2. permissionAssignment s1 n role X = Some s2 \<longrightarrow> canAccess s2 senior n X = Some True)
       \<and> (acyclic (child_rel (resources s1)) \<longrightarrow> (\<exists>s2. permissionAssignment s1 n role X = Some s2))"
proof (intro conjI allI impI)
  fix s2
  assume pa: "permissionAssignment s1 n role X = Some s2"
  from assms(1) obtain s0 where s0: "run build init = Some s0" and s1: "run rest s0 = Some s1"
    by (auto simp: run_append bind_eq_Some_conv)
  have "closed_under_seniors s0"
    using build_no_explicit[OF s0 assms(2)] by (rule no_explicit_closed)
  with s1 have "closed_under_seniors s1"
    by (rule run_invariant) (use assms(3) exec_closed in blast)
  then have c2: "closed_under_seniors s2" using pa by (rule permissionAssignment_closed)
  have "role \<in> set (get_roles (rwp (node_at (resources s2) n)) X)"
    using permissionAssignment_rwp[OF pa, of n X] assms(4) by simp
  moreover have "(role, senior) \<in> (senior_rel (roles s2))\<^sup>+"
    using permissionAssignment_roles[OF pa] assms(5) by simp
  ultimately have "senior \<in> set (get_roles (erwp (node_at (resources s2) n)) X)"
    using c2 unfolding closed_under_seniors_def by blast
  then show "canAccess s2 senior n X = Some True"
    unfolding canAccess_def by (subst canAccess_loop.simps) simp
next
  assume "acyclic (child_rel (resources s1))"
  then show "\<exists>s2. permissionAssignment s1 n role X = Some s2"
    by (rule permissionAssignment_returns)
qed

lemma acyclic_child_rel_increasing:
  assumes "\<forall>(n, cs) \<in> set (enumerate 0 (map children h)). \<forall>c \<in> set cs. n < c"
  shows "acyclic (child_rel h)"
proof (rule acyclicI_order[where f = "\<lambda>n. - int n"])
  fix a b
  assume ab: "(a, b) \<in> child_rel h"
  then have a: "a < length h" and b: "b \<in> set (children (h ! a))"
    by (auto simp: child_rel_def node_at_def new_Resource_def split: if_splits)
  from a have "(a, children (h ! a)) \<in> set (enumerate 0 (map children h))"
    by (simp add: in_set_enumerate_eq)
  with assms b have "a < b" by blast
  then show "- int b < - int a" by simp
qed


text \<open>The cycle \<open>0 \<rightarrow> 1 \<rightarrow> 2 \<rightarrow> 0\<close> of seniors on \<open>root \<rightarrow> child\<close>; after two
  assignments, a third resource is attached below the child and \<open>read\<close> is granted there to
  \<open>role 0\<close>: \<open>role 2\<close>, senior through \<open>role 1\<close>, has access.\<close>

theorem senior_can_access_witness:
  "\<exists>s1 s2. run [Assign 0 2 ''write'', NewResource, AddChild 1 2, Assign 1 1 ''read''] cycle_state = Some s1
      \<and> permissionAssignment s1 2 0 ''read'' = Some s2
      \<and> canAccess s2 2 2 ''read'' = Some True"
proof -
  let ?build = "[NewResource, NewResource, NewRole, NewRole, NewRole,
                  AddChild 0 1, AddParent 0 1, AddParent 1 2, AddParent 2 0]"
  let ?rest = "[Assign 0 2 ''write'', NewResource, AddChild 1 2, Assign 1 1 ''read'']"
  have b0: "run ?build init = Some cycle_state" by (simp add: run_def cycle_state_def)
  have "map_option (\<lambda>s. (map children (resources s), roles s)) (run ?rest cycle_state)
          = Some ([[1], [2], []], roles cycle_state)"
    by code_simp
  then obtain s1 where s1: "run ?rest cycle_state = Some s1"
    and ch: "map children (resources s1) = [[1], [2], []]" and rs: "roles s1 = roles cycle_state"
    by auto
  have r: "run (?build @ ?rest) init = Some s1" using b0 s1 by (simp only: run_append bind.simps)
  have b: "\<forall>op \<in> set ?build. \<not> is_Assign op" by simp
  have a: "\<forall>op \<in> set ?rest. \<not> is_AddParent op" by simp
  have "length (map children (resources s1)) = 3" by (simp only: ch) simp
  then have n: "2 < length (resources s1)" by simp
  have ac: "acyclic (child_rel (resources s1))"
    by (rule acyclic_child_rel_increasing) (simp add: ch)
  have "2 \<in> set (getAncestors (roles cycle_state) 0)" by code_simp
  then have sen: "(0, 2) \<in> (senior_rel (roles s1))\<^sup>+" unfolding rs by (rule getAncestors_sound)
  from senior_can_access[OF r b a n sen, of "''read''"] ac s1 show ?thesis by blast
qed

subsection \<open>Invariant, idempotence, monotonicity and the frame of \<open>addParent\<close>\<close>


lemma acyclic_tree2: "acyclic (child_rel (resources tree2))"
  by (rule acyclic_child_rel_increasing)
     (simp add: tree2_def addChild_def newRole_def newResource_def init_def node_at_def
        new_Resource_def less_Suc_eq)

text \<open>
  C9: in every state that a sequence of public operations reaches from the empty store,
  at every resource node and for every action, each role in the explicit permissions
  (\<open>rwp\<close>) is in the effective permissions (\<open>erwp\<close>). An action without an entry has
  no roles.
\<close>

theorem explicit_subset_effective:
  assumes "run ops init = Some s"
  shows "set (get_roles (rwp (node_at (resources s) n)) a)
           \<subseteq> set (get_roles (erwp (node_at (resources s) n)) a)"
proof -
  have "explicit_in_effective s"
    using assms init_explicit_in_effective
    by (rule run_invariant) (rule exec_explicit_in_effective)
  then show ?thesis by (simp add: explicit_in_effective_def)
qed

text \<open>One resource, \<open>role 1\<close> senior to \<open>role 0\<close>, \<open>read\<close> granted to \<open>role 0\<close>.\<close>

theorem explicit_subset_effective_witness:
  "map_option (\<lambda>s. (get_roles (rwp (node_at (resources s) 0)) ''read'',
                    get_roles (erwp (node_at (resources s) 0)) ''read''))
     (run [NewResource, NewRole, NewRole, AddParent 0 1, Assign 0 0 ''read''] init)
     = Some ([0], [0, 1])
   \<and> (\<exists>s. run [NewResource, NewRole, NewRole, AddParent 0 1, Assign 0 0 ''read''] init = Some s
        \<and> set (get_roles (rwp (node_at (resources s) 0)) ''read'')
            \<subseteq> set (get_roles (erwp (node_at (resources s) 0)) ''read''))"
proof -
  have e: "map_option (\<lambda>s. (get_roles (rwp (node_at (resources s) 0)) ''read'',
                    get_roles (erwp (node_at (resources s) 0)) ''read''))
     (run [NewResource, NewRole, NewRole, AddParent 0 1, Assign 0 0 ''read''] init)
     = Some ([0], [0, 1])"
    by code_simp
  then obtain s where s: "run [NewResource, NewRole, NewRole, AddParent 0 1, Assign 0 0 ''read''] init = Some s"
    by blast
  from explicit_subset_effective[OF s, of 0 "''read''"] e s show ?thesis by blast
qed

text \<open>
  C7: at an existing resource node, if \<open>assign(n, r, X)\<close> returns the state \<open>s1\<close>, then
  a second \<open>assign(n, r, X)\<close> returns \<open>s1\<close> itself: no field of any node changes. The
  first call does return when the containment structure is acyclic.
\<close>

theorem assign_idempotent:
  assumes "n < length (resources s)"
  shows "(\<forall>s1. permissionAssignment s n r a = Some s1 \<longrightarrow> permissionAssignment s1 n r a = Some s1)
       \<and> (acyclic (child_rel (resources s)) \<longrightarrow> (\<exists>s1. permissionAssignment s n r a = Some s1))"
  using assms permissionAssignment_twice permissionAssignment_returns by blast

text \<open>The first assignment at the root of \<open>root \<rightarrow> child\<close>, then the same call again.\<close>

theorem assign_idempotent_witness:
  "\<exists>s1. permissionAssignment tree2 0 0 ''read'' = Some s1
        \<and> permissionAssignment s1 0 0 ''read'' = Some s1
        \<and> get_roles (rwp (node_at (resources s1) 0)) ''read'' = [0]"
proof -
  have len: "0 < length (resources tree2)"
    by (simp add: tree2_def addChild_def newRole_def newResource_def init_def Let_def)
  have e: "map_option (\<lambda>s. get_roles (rwp (node_at (resources s) 0)) ''read'')
             (permissionAssignment tree2 0 0 ''read'') = Some [0]"
    by code_simp
  from assign_idempotent[OF len, of 0 "''read''"] acyclic_tree2
  obtain s1 where s1: "permissionAssignment tree2 0 0 ''read'' = Some s1" by blast
  with assign_idempotent[OF len, of 0 "''read''"] e show ?thesis by auto
qed

text \<open>
  C8: \<open>Role.addParent\<close> leaves the store of resource nodes as it is (every \<open>rwp\<close>,
  \<open>erwp\<close>, \<open>acpn\<close> and \<open>accn\<close>), at any time it is called, so every \<open>canAccess\<close>
  answer is the same after the call as before it: a role made senior after a grant does not
  gain that grant.
\<close>

theorem addParent_frame:
  "resources (addParent s this parentRole) = resources s
   \<and> canAccess (addParent s this parentRole) role resource action = canAccess s role resource action"
  by (simp add: canAccess_def addParent_resources)

text \<open>\<open>read\<close> is granted to \<open>role 0\<close> on the only resource; \<open>role 1\<close> becomes senior to
  \<open>role 0\<close> afterwards and has no access, while it has access when the edge is added
  before the grant.\<close>

theorem addParent_frame_witness:
  "Option.bind (run [NewResource, NewRole, NewRole, Assign 0 0 ''read''] init)
      (\<lambda>s. canAccess (addParent s 0 1) 1 0 ''read'') = Some False
   \<and> Option.bind (run [NewResource, NewRole, NewRole, Assign 0 0 ''read''] init)
      (\<lambda>s. canAccess s 1 0 ''read'') = Some False
   \<and> Option.bind (run [NewResource, NewRole, NewRole, AddParent 0 1, Assign 0 0 ''read''] init)
      (\<lambda>s. canAccess s 1 0 ''read'') = Some True"
proof -
  have "Option.bind (run [NewResource, NewRole, NewRole, Assign 0 0 ''read''] init)
      (\<lambda>s. canAccess s 1 0 ''read'') = Some False"
    by code_simp
  moreover have "Option.bind (run [NewResource, NewRole, NewRole, AddParent 0 1, Assign 0 0 ''read''] init)
      (\<lambda>s. canAccess s 1 0 ''read'') = Some True"
    by code_simp
  ultimately show ?thesis by (simp add: addParent_frame)
qed

text \<open>
  C10: one call of \<open>permissionAssignment\<close>, from any state: at every node and for every
  action the roles of \<open>rwp\<close> and of \<open>erwp\<close> before the call are among those after it.
  The call returns when the containment structure is acyclic.
\<close>

theorem assign_monotone:
  "(\<forall>s'. permissionAssignment s n r a = Some s' \<longrightarrow>
      (\<forall>m b. set (get_roles (rwp (node_at (resources s) m)) b)
                \<subseteq> set (get_roles (rwp (node_at (resources s') m)) b)
            \<and> set (get_roles (erwp (node_at (resources s) m)) b)
                \<subseteq> set (get_roles (erwp (node_at (resources s') m)) b)))
   \<and> (acyclic (child_rel (resources s)) \<longrightarrow> (\<exists>s'. permissionAssignment s n r a = Some s'))"
proof (intro conjI allI impI)
  fix s' m b
  assume pa: "permissionAssignment s n r a = Some s'"
  show "set (get_roles (rwp (node_at (resources s) m)) b)
          \<subseteq> set (get_roles (rwp (node_at (resources s') m)) b)"
    using permissionAssignment_rwp[OF pa, of m b] by blast
  show "set (get_roles (erwp (node_at (resources s) m)) b)
          \<subseteq> set (get_roles (erwp (node_at (resources s') m)) b)"
    using permissionAssignment_erwp_grows[OF pa] by (simp add: erwp_grows_def)
next
  assume "acyclic (child_rel (resources s))"
  then show "\<exists>s'. permissionAssignment s n r a = Some s'"
    by (rule permissionAssignment_returns)
qed

text \<open>Two assignments on \<open>root \<rightarrow> child\<close>: the second, at the child, keeps the grant at
  the root.\<close>

theorem assign_monotone_witness:
  "\<exists>s1 s2. permissionAssignment tree2 0 0 ''read'' = Some s1
      \<and> permissionAssignment s1 1 1 ''read'' = Some s2
      \<and> get_roles (erwp (node_at (resources s1) 0)) ''read'' = [0]
      \<and> get_roles (erwp (node_at (resources s2) 0)) ''read'' = [0]
      \<and> get_roles (erwp (node_at (resources s2) 1)) ''read'' = [1]
      \<and> set (get_roles (erwp (node_at (resources s1) 0)) ''read'')
           \<subseteq> set (get_roles (erwp (node_at (resources s2) 0)) ''read'')"
proof -
  have e: "map_option (\<lambda>s. get_roles (erwp (node_at (resources s) 0)) ''read'')
             (permissionAssignment tree2 0 0 ''read'') = Some [0]"
    by code_simp
  then obtain s1 where s1: "permissionAssignment tree2 0 0 ''read'' = Some s1"
     "get_roles (erwp (node_at (resources s1) 0)) ''read'' = [0]" by blast
  have "map_option (\<lambda>s. (get_roles (erwp (node_at (resources s) 0)) ''read'',
                         get_roles (erwp (node_at (resources s) 1)) ''read''))
          (Option.bind (permissionAssignment tree2 0 0 ''read'') (\<lambda>s. permissionAssignment s 1 1 ''read''))
        = Some ([0], [1])"
    by code_simp
  with s1 obtain s2 where s2: "permissionAssignment s1 1 1 ''read'' = Some s2"
     "get_roles (erwp (node_at (resources s2) 0)) ''read'' = [0]"
     "get_roles (erwp (node_at (resources s2) 1)) ''read'' = [1]" by auto
  from assign_monotone[of s1 1 1 "''read''"] s2(1)
  have "set (get_roles (erwp (node_at (resources s1) 0)) ''read'')
           \<subseteq> set (get_roles (erwp (node_at (resources s2) 0)) ''read'')" by blast
  with s1 s2 show ?thesis by blast
qed

subsection \<open>The shortcut to the access parent\<close>

lemma repointed_refl: "repointed r D h h"
  by (simp add: repointed_def)

lemma repointed_mono: "repointed r D h h' \<Longrightarrow> D \<subseteq> E \<Longrightarrow> repointed r E h h'"
  unfolding repointed_def by blast

lemma repointed_trans:
  assumes "repointed r D h t" and "repointed r D t u"
  shows "repointed r D h u"
  unfolding repointed_def
proof (intro conjI allI)
  show "map children u = map children h" using assms by (simp add: repointed_def)
next
  fix m
  from assms(1) have 1: "node_at t m = node_at h m \<or> (m \<in> D \<and> node_at t m = (node_at h m)\<lparr>acpn := Some r\<rparr>)"
    by (simp add: repointed_def)
  from assms(2) have 2: "node_at u m = node_at t m \<or> (m \<in> D \<and> node_at u m = (node_at t m)\<lparr>acpn := Some r\<rparr>)"
    by (simp add: repointed_def)
  from 1 2 show "node_at u m = node_at h m \<or> (m \<in> D \<and> node_at u m = (node_at h m)\<lparr>acpn := Some r\<rparr>)"
    by auto
qed

lemma node_at_repoint:
  "node_at (repoint originalAcpn r node h) m =
     (if m = node \<and> node < length h \<and> acpn (node_at h node) = originalAcpn
      then (node_at h node)\<lparr>acpn := Some r\<rparr> else node_at h m)"
  by (simp add: repoint_def node_at_update)

lemma repoint_repointed: "repointed r {node} h (repoint originalAcpn r node h)"
  unfolding repointed_def by (simp add: repoint_preserves node_at_repoint)

lemma rtrancl_Image_closed: "S \<subseteq> R\<^sup>* `` A \<Longrightarrow> R\<^sup>* `` S \<subseteq> R\<^sup>* `` A"
  by (blast intro: rtrancl_trans)

lemma children_in_child_rel: "set (children (node_at h n)) \<subseteq> (child_rel h) `` {n}"
  by (auto simp: child_rel_def)

lemma traverseSubtree_loop_repointed:
  assumes "traverseSubtree_loop (repoint originalAcpn r) queue h = Some h'"
  shows "repointed r ((child_rel h)\<^sup>* `` set queue) h h'"
proof -
  have "cb = repoint originalAcpn r \<longrightarrow> repointed r ((child_rel h)\<^sup>* `` set queue) h h'"
    if "traverseSubtree_loop cb queue h = Some h'" for cb
  proof (rule traverseSubtree_loop.raw_induct[where P = "\<lambda>cb q t t'.
            cb = repoint originalAcpn r \<longrightarrow> repointed r ((child_rel t)\<^sup>* `` set q) t t'", OF _ that])
    fix loop cb q t t'
    assume IH: "\<And>cb q t t'. loop cb q t = Some t' \<Longrightarrow>
                  cb = repoint originalAcpn r \<longrightarrow> repointed r ((child_rel t)\<^sup>* `` set q) t t'"
      and eq: "(case q of [] \<Rightarrow> Some t
                | currentNode # rest \<Rightarrow>
                    let h' = cb currentNode t
                    in loop cb (rest @ children (node_at h' currentNode)) h') = Some t'"
    show "cb = repoint originalAcpn r \<longrightarrow> repointed r ((child_rel t)\<^sup>* `` set q) t t'"
    proof
      assume cb: "cb = repoint originalAcpn r"
      show "repointed r ((child_rel t)\<^sup>* `` set q) t t'"
      proof (cases q)
        case Nil
        with eq show ?thesis by (simp add: repointed_refl)
      next
        case (Cons currentNode rest)
        let ?t1 = "cb currentNode t"
        let ?q = "rest @ children (node_at ?t1 currentNode)"
        let ?D = "(child_rel t)\<^sup>* `` set q"
        from Cons eq have "loop cb ?q ?t1 = Some t'" by (simp add: Let_def)
        from IH[OF this] cb have 2: "repointed r ((child_rel ?t1)\<^sup>* `` set ?q) ?t1 t'" by simp
        have 1: "repointed r {currentNode} t ?t1" unfolding cb by (rule repoint_repointed)
        then have c: "child_rel ?t1 = child_rel t"
          by (intro child_rel_cong) (simp add: repointed_def)
        have "set (children (node_at ?t1 currentNode)) \<subseteq> (child_rel t) `` {currentNode}"
          using children_in_child_rel[of ?t1 currentNode] c by simp
        then have "set ?q \<subseteq> ?D" using Cons by auto
        then have "(child_rel t)\<^sup>* `` set ?q \<subseteq> ?D"
          by (rule rtrancl_Image_closed)
        with 2 c have step2: "repointed r ?D ?t1 t'" by (simp add: repointed_mono)
        have "{currentNode} \<subseteq> ?D" using Cons by auto
        with 1 have "repointed r ?D t ?t1" by (rule repointed_mono)
        then show ?thesis using step2 by (rule repointed_trans)
      qed
    qed
  qed
  with assms show ?thesis by blast
qed

lemma rewire_effect:
  assumes "rewire h n = Some h'"
  shows "map children h' = map children h"
    and "\<And>m. acpn (node_at h' m) = (if m = n then None else acpn (node_at h m))
            \<or> (m \<in> (child_rel h)\<^sup>+ `` {n} \<and> acpn (node_at h' m) = Some n)"
proof -
  define originalAcpn where "originalAcpn = acpn (node_at h n)"
  define h1 where "h1 = h[n := (node_at h n)\<lparr>acpn := None\<rparr>]"
  define h2 where "h2 = (case originalAcpn of None \<Rightarrow> h1
      | Some p \<Rightarrow> h1[p := (node_at h1 p)\<lparr>accn := set_add n (accn (node_at h1 p))\<rparr>])"
  have loop: "for_each (children (node_at h2 n))
          (\<lambda>child. traverseSubtree child (repoint originalAcpn n)) h2 = Some h'"
    using assms(1) unfolding rewire_def Let_def h2_def h1_def originalAcpn_def .
  have c1: "map children h1 = map children h" unfolding h1_def by (simp add: map_update_same)
  have c2: "map children h2 = map children h"
    unfolding h2_def using c1 by (simp add: map_update_same split: option.split)
  have cr: "child_rel h2 = child_rel h" using c2 by (rule child_rel_cong)
  have a1: "acpn (node_at h1 m) = (if m = n then None else acpn (node_at h m))" for m
    by (simp add: h1_def node_at_update) (simp add: node_at_def new_Resource_def)
  have a2: "acpn (node_at h2 m) = (if m = n then None else acpn (node_at h m))" for m
  proof -
    have "map acpn h2 = map acpn h1"
      unfolding h2_def by (simp add: map_update_same split: option.split)
    then have "acpn (node_at h2 m) = acpn (node_at h1 m)" by (rule node_at_map_eq)
    then show ?thesis by (simp add: a1)
  qed
  let ?D = "(child_rel h)\<^sup>+ `` {n}"
  have r: "repointed n ?D h2 h'"
  proof (rule for_each_invariant[OF loop, where I = "repointed n ?D h2"])
    show "repointed n ?D h2 h2" by (rule repointed_refl)
  next
    fix c t t'
    assume c: "c \<in> set (children (node_at h2 n))" and t: "repointed n ?D h2 t"
      and tr: "traverseSubtree c (repoint originalAcpn n) t = Some t'"
    have "map children t = map children h" using t c2 by (simp add: repointed_def)
    then have ct: "child_rel t = child_rel h" by (rule child_rel_cong)
    have "(n, c) \<in> child_rel h" using c cr by (auto simp: child_rel_def)
    then have "(child_rel h)\<^sup>* `` {c} \<subseteq> ?D" by (auto intro: rtrancl_into_trancl2)
    moreover have "repointed n ((child_rel t)\<^sup>* `` set [c]) t t'"
      using tr unfolding traverseSubtree_def by (rule traverseSubtree_loop_repointed)
    ultimately have "repointed n ?D t t'" using ct by (simp add: repointed_mono)
    with t show "repointed n ?D h2 t'" by (rule repointed_trans)
  qed
  show "map children h' = map children h" using r c2 by (simp add: repointed_def)
  fix m
  from r have "node_at h' m = node_at h2 m \<or> (m \<in> ?D \<and> node_at h' m = (node_at h2 m)\<lparr>acpn := Some n\<rparr>)"
    by (simp add: repointed_def)
  then show "acpn (node_at h' m) = (if m = n then None else acpn (node_at h m))
            \<or> (m \<in> ?D \<and> acpn (node_at h' m) = Some n)"
    using a2[of m] by auto
qed

lemma rewire_acpn_above:
  assumes "acpn_above h" and "rewire h n = Some h'"
  shows "acpn_above h'"
proof -
  have c: "child_rel h' = child_rel h"
    using rewire_effect(1)[OF assms(2)] by (rule child_rel_cong)
  show ?thesis unfolding acpn_above_def c
  proof (intro allI impI)
    fix m p
    assume p: "acpn (node_at h' m) = Some p"
    from rewire_effect(2)[OF assms(2), of m] p
    have "(m \<noteq> n \<and> acpn (node_at h m) = Some p) \<or> (m \<in> (child_rel h)\<^sup>+ `` {n} \<and> p = n)"
      by (auto split: if_splits)
    then show "(p, m) \<in> (child_rel h)\<^sup>+"
      using assms(1) by (auto simp: acpn_above_def)
  qed
qed

lemma acpn_above_cong:
  assumes "acpn_above h" and "map acpn h' = map acpn h" and "map children h' = map children h"
  shows "acpn_above h'"
  using assms(1) node_at_map_eq[OF assms(2)] child_rel_cong[OF assms(3)]
  by (simp add: acpn_above_def)

lemma permissionAssignment_acpn_above:
  assumes "acpn_above (resources s)" and "permissionAssignment s n r a = Some s'"
  shows "acpn_above (resources s')"
  using assms(2)
proof (cases rule: permissionAssignment_cases)
  case already
  with assms(1) show ?thesis by simp
next
  case (fresh h3 h5)
  have 3: "acpn_above h3"
    using fresh(2) assms(1) rewire_acpn_above by (auto split: if_splits)
  have "map acpn (add_explicit h3 n r a) = map acpn h3" "map children (add_explicit h3 n r a) = map children h3"
    by (rule add_explicit_preserves, simp)+
  moreover have "map acpn h5 = map acpn (add_explicit h3 n r a)" "map children h5 = map children (add_explicit h3 n r a)"
    using propagateRwp_frame[OF fresh(3), of acpn] propagateRwp_frame[OF fresh(3), of children] by simp_all
  ultimately have "map acpn h5 = map acpn h3" "map children h5 = map children h3" by simp_all
  with 3 have "acpn_above h5" by (rule acpn_above_cong)
  with fresh(4) show ?thesis by simp
qed

lemma addChild_child_rel: "child_rel (resources s) \<subseteq> child_rel (resources (addChild s p c))"
  by (auto simp: child_rel_def addChild_def Let_def node_at_update)

lemma exec_acpn_above:
  assumes "acpn_above (resources s)" and "exec op s = Some s'"
  shows "acpn_above (resources s')"
proof (cases op)
  case NewResource
  with assms have "s' = newResource s" by simp
  then have "node_at (resources s') n = node_at (resources s) n" for n
    by (simp add: newResource_def node_at_append_new)
  then have "acpn (node_at (resources s') n) = acpn (node_at (resources s) n)"
       "child_rel (resources s') = child_rel (resources s)" for n
    by (simp_all add: child_rel_def)
  with assms(1) show ?thesis by (simp add: acpn_above_def)
next
  case NewRole
  with assms have "resources s' = resources s" by (auto simp: newRole_def)
  with assms(1) show ?thesis by simp
next
  case (AddChild p c)
  have "map acpn (resources (addChild s p c)) = map acpn (resources s)"
    by (rule addChild_preserves) simp_all
  then have a: "acpn (node_at (resources (addChild s p c)) n) = acpn (node_at (resources s) n)" for n
    by (rule node_at_map_eq)
  have "(child_rel (resources s))\<^sup>+ \<subseteq> (child_rel (resources (addChild s p c)))\<^sup>+"
    using addChild_child_rel by (rule trancl_mono_subset)
  with assms AddChild a show ?thesis by (auto simp: acpn_above_def)
next
  case (AddParent r p)
  with assms have "resources s' = resources s" by (auto simp: addParent_def Let_def)
  with assms(1) show ?thesis by simp
next
  case (Assign n r a)
  with assms show ?thesis using permissionAssignment_acpn_above by simp
qed

lemma reachable_acpn_above:
  assumes "run ops init = Some s"
  shows "acpn_above (resources s)"
proof (rule run_invariant[OF assms, where I = "\<lambda>t. acpn_above (resources t)"])
  show "acpn_above (resources init)"
    by (simp add: acpn_above_def init_def node_at_def new_Resource_def)
next
  fix op t t'
  assume "acpn_above (resources t)" "exec op t = Some t'"
  then show "acpn_above (resources t')" by (rule exec_acpn_above)
qed

lemma canAccess_loop_returns:
  assumes "acyclic (child_rel h)" and "acpn_above h"
  shows "\<exists>b. canAccess_loop h role (Some n) action = Some b"
proof -
  have "wf (child_rel h)" using finite_child_rel assms(1) by (rule finite_acyclic_wf)
  then have "wf ((child_rel h)\<^sup>+)" by (rule wf_trancl)
  then show ?thesis
  proof (induction n rule: wf_induct_rule)
    case (less n)
    show ?case
    proof (cases "role \<in> set (get_roles (erwp (node_at h n)) action)")
      case True
      have "canAccess_loop h role (Some n) action = Some True"
        by (subst canAccess_loop.simps) (simp add: True)
      then show ?thesis by blast
    next
      case False
      show ?thesis
      proof (cases "acpn (node_at h n)")
        case None
        have "canAccess_loop h role None action = Some False"
          by (subst canAccess_loop.simps) simp
        then have "canAccess_loop h role (Some n) action = Some False"
          by (subst canAccess_loop.simps) (simp add: False None)
        then show ?thesis by blast
      next
        case (Some p)
        then have "(p, n) \<in> (child_rel h)\<^sup>+" using assms(2) by (simp add: acpn_above_def)
        from less.IH[OF this] obtain b where "canAccess_loop h role (Some p) action = Some b" ..
        with False Some show ?thesis by (subst canAccess_loop.simps) simp
      qed
    qed
  qed
qed

text \<open>Right after the first assignment at a node of an acyclic containment structure the
  node has no access parent, and a query at the node is answered from its own \<open>erwp\<close>.\<close>

lemma first_assignment_acpn:
  assumes "rwp (node_at (resources s) n) = []" and "acyclic (child_rel (resources s))"
    and pa: "permissionAssignment s n r a = Some s'"
  shows "acpn (node_at (resources s') n) = None"
  using pa
proof (cases rule: permissionAssignment_cases)
  case already
  with assms(1) show ?thesis by (simp add: get_roles_def)
next
  case (fresh h3 h5)
  from fresh(2) assms(1) have rw: "rewire (resources s) n = Some h3" by simp
  have "(n, n) \<notin> (child_rel (resources s))\<^sup>+" using assms(2) by (simp add: acyclic_def)
  with rewire_effect(2)[OF rw, of n] have 3: "acpn (node_at h3 n) = None" by auto
  have "map acpn (add_explicit h3 n r a) = map acpn h3"
    by (rule add_explicit_preserves) simp
  moreover have "map acpn h5 = map acpn (add_explicit h3 n r a)"
    using propagateRwp_frame[OF fresh(3), of acpn] by simp
  ultimately have "map acpn h5 = map acpn h3" by simp
  then have "acpn (node_at h5 n) = acpn (node_at h3 n)" by (rule node_at_map_eq)
  with 3 fresh(4) show ?thesis by simp
qed

lemma first_assignment_query:
  assumes "rwp (node_at (resources s) n) = []" and "acyclic (child_rel (resources s))"
    and pa: "permissionAssignment s n r a = Some s'"
  shows "canAccess s' role n action
           = Some (role \<in> set (get_roles (erwp (node_at (resources s') n)) action))"
proof -
  have none: "canAccess_loop (resources s') role None action = Some False"
    by (subst canAccess_loop.simps) simp
  have "acpn (node_at (resources s') n) = None" using assms by (rule first_assignment_acpn)
  then show ?thesis
    unfolding canAccess_def by (subst canAccess_loop.simps) (simp add: none)
qed

text \<open>In a reachable state with an acyclic containment structure every query returns.\<close>

lemma canAccess_returns:
  assumes "run ops init = Some s" and "acyclic (child_rel (resources s))"
  shows "\<exists>b. canAccess s role n action = Some b"
  unfolding canAccess_def
  using assms(2) reachable_acpn_above[OF assms(1)] by (rule canAccess_loop_returns)

text \<open>The access children: a first assignment adds the node to the \<open>accn\<close> of its old
  access parent, and no \<open>accn\<close> set changes otherwise.\<close>

lemma rewire_accn:
  assumes "rewire h n = Some h'"
  shows "set (accn (node_at h' m))
           \<subseteq> set (accn (node_at h m)) \<union> (if acpn (node_at h n) = Some m then {n} else {})"
proof -
  define originalAcpn where "originalAcpn = acpn (node_at h n)"
  define h1 where "h1 = h[n := (node_at h n)\<lparr>acpn := None\<rparr>]"
  define h2 where "h2 = (case originalAcpn of None \<Rightarrow> h1
      | Some p \<Rightarrow> h1[p := (node_at h1 p)\<lparr>accn := set_add n (accn (node_at h1 p))\<rparr>])"
  have loop: "for_each (children (node_at h2 n))
          (\<lambda>child. traverseSubtree child (repoint originalAcpn n)) h2 = Some h'"
    using assms(1) unfolding rewire_def Let_def h2_def h1_def originalAcpn_def .
  have "map accn h' = map accn h2"
  proof (rule for_each_invariant[OF loop, where I = "\<lambda>t. map accn t = map accn h2"])
    show "map accn h2 = map accn h2" ..
  next
    fix x t t'
    assume "map accn t = map accn h2" "traverseSubtree x (repoint originalAcpn n) t = Some t'"
    then show "map accn t' = map accn h2"
      using traverseSubtree_loop_preserves[of "repoint originalAcpn n" "[x]" t t' accn]
      by (simp add: traverseSubtree_def repoint_preserves)
  qed
  then have e: "accn (node_at h' m) = accn (node_at h2 m)" by (rule node_at_map_eq)
  have "map accn h1 = map accn h" unfolding h1_def by (simp add: map_update_same)
  then have e1: "accn (node_at h1 k) = accn (node_at h k)" for k by (rule node_at_map_eq)
  have "set (accn (node_at h2 m))
           \<subseteq> set (accn (node_at h m)) \<union> (if originalAcpn = Some m then {n} else {})"
    unfolding h2_def by (auto simp: node_at_update e1 set_add_set split: option.splits if_splits)
  then show ?thesis unfolding e originalAcpn_def .
qed

lemma add_explicit_rwp_nonempty:
  assumes "rwp (node_at h c) \<noteq> [] \<or> (c = n \<and> n < length h)"
  shows "rwp (node_at (add_explicit h n r a) c) \<noteq> []"
proof (cases "c = n \<and> n < length h")
  case True
  have "map_of (AList.update a v m) a \<noteq> None" for v :: "role list" and m
    by (simp add: update_conv')
  then have "AList.update a v m \<noteq> []" for v :: "role list" and m by fastforce
  with True show ?thesis by (simp add: add_explicit_def node_at_update)
next
  case False
  with assms show ?thesis by (auto simp: add_explicit_def node_at_update)
qed

lemma permissionAssignment_accn_below:
  assumes "accn_below (resources s)" and "acpn_above (resources s)"
    and pa: "permissionAssignment s n r a = Some s'"
  shows "accn_below (resources s')"
  using pa
proof (cases rule: permissionAssignment_cases)
  case already
  with assms(1) show ?thesis by simp
next
  case (fresh h3 h5)
  let ?h = "resources s"
  let ?h4 = "add_explicit h3 n r a"
  have c3: "map children h3 = map children ?h" and r3: "map rwp h3 = map rwp ?h"
    using fresh(2) by (rule pre_rewire_preserves; simp)+
  have len3: "length h3 = length ?h" using c3 by (rule map_eq_imp_length_eq)
  have c5: "map children h5 = map children ?h"
    using propagateRwp_frame[OF fresh(3), of children] add_explicit_preserves[of children h3 n r a] c3
    by simp
  have cr: "child_rel h5 = child_rel ?h" using c5 by (rule child_rel_cong)
  have a5: "accn (node_at h5 m) = accn (node_at h3 m)" for m
  proof -
    have "map accn h5 = map accn h3"
      using propagateRwp_frame[OF fresh(3), of accn] add_explicit_preserves[of accn h3 n r a] by simp
    then show ?thesis by (rule node_at_map_eq)
  qed
  have w5: "rwp (node_at h5 c) = rwp (node_at ?h4 c)" for c
  proof -
    have "map rwp h5 = map rwp ?h4" using propagateRwp_frame[OF fresh(3), of rwp] by simp
    then show ?thesis by (rule node_at_map_eq)
  qed
  have w3: "rwp (node_at h3 c) = rwp (node_at ?h c)" for c using r3 by (rule node_at_map_eq)
  have "accn_below h5" unfolding accn_below_def cr
  proof (intro allI impI)
    fix m c
    assume "c \<in> set (accn (node_at h5 m))"
    then have c: "c \<in> set (accn (node_at h3 m))" by (simp add: a5)
    have "c \<in> set (accn (node_at ?h m)) \<or> (c = n \<and> acpn (node_at ?h n) = Some m)"
    proof (cases "rwp (node_at ?h n) = []")
      case True
      with fresh(2) have "rewire ?h n = Some h3" by simp
      from rewire_accn[OF this, of m] c show ?thesis by (auto split: if_splits)
    next
      case False
      with fresh(2) have "h3 = ?h" by simp
      with c show ?thesis by simp
    qed
    then show "(m, c) \<in> (child_rel ?h)\<^sup>+ \<and> rwp (node_at h5 c) \<noteq> []"
    proof
      assume old: "c \<in> set (accn (node_at ?h m))"
      then have "(m, c) \<in> (child_rel ?h)\<^sup>+" "rwp (node_at h3 c) \<noteq> []"
        using assms(1) by (simp_all add: accn_below_def w3)
      then show ?thesis using add_explicit_rwp_nonempty[of h3 c n r a] by (simp add: w5)
    next
      assume new: "c = n \<and> acpn (node_at ?h n) = Some m"
      then have "(m, n) \<in> (child_rel ?h)\<^sup>+" using assms(2) by (simp add: acpn_above_def)
      moreover have "n < length ?h"
        using new by (cases "n < length ?h") (simp_all add: node_at_def new_Resource_def)
      then have "rwp (node_at ?h4 n) \<noteq> []"
        using add_explicit_rwp_nonempty[of h3 n n r a] len3 by simp
      ultimately show ?thesis using new by (simp add: w5)
    qed
  qed
  with fresh(4) show ?thesis by simp
qed

lemma exec_shortcuts:
  assumes "acpn_above (resources s) \<and> accn_below (resources s)" and "exec op s = Some s'"
  shows "acpn_above (resources s') \<and> accn_below (resources s')"
proof
  show "acpn_above (resources s')" using assms exec_acpn_above by blast
  from assms(1) have b: "accn_below (resources s)" and a: "acpn_above (resources s)" by simp_all
  show "accn_below (resources s')"
  proof (cases op)
    case NewResource
    with assms have "s' = newResource s" by simp
    then have "node_at (resources s') n = node_at (resources s) n" for n
      by (simp add: newResource_def node_at_append_new)
    then have "accn (node_at (resources s') n) = accn (node_at (resources s) n)"
         "rwp (node_at (resources s') n) = rwp (node_at (resources s) n)"
         "child_rel (resources s') = child_rel (resources s)" for n
      by (simp_all add: child_rel_def)
    with b show ?thesis by (simp add: accn_below_def)
  next
    case NewRole
    with assms have "resources s' = resources s" by (auto simp: newRole_def)
    with b show ?thesis by simp
  next
    case (AddChild p c)
    have "map accn (resources (addChild s p c)) = map accn (resources s)"
      by (rule addChild_preserves) simp_all
    then have a': "accn (node_at (resources (addChild s p c)) n) = accn (node_at (resources s) n)" for n
      by (rule node_at_map_eq)
    have "map rwp (resources (addChild s p c)) = map rwp (resources s)"
      by (rule addChild_preserves) simp_all
    then have w: "rwp (node_at (resources (addChild s p c)) n) = rwp (node_at (resources s) n)" for n
      by (rule node_at_map_eq)
    have "(child_rel (resources s))\<^sup>+ \<subseteq> (child_rel (resources (addChild s p c)))\<^sup>+"
      using addChild_child_rel by (rule trancl_mono_subset)
    with assms AddChild a' w b show ?thesis by (auto simp: accn_below_def)
  next
    case (AddParent r p)
    with assms have "resources s' = resources s" by (auto simp: addParent_def Let_def)
    with b show ?thesis by simp
  next
    case (Assign n r a)
    with assms b a show ?thesis using permissionAssignment_accn_below by simp
  qed
qed

lemma reachable_accn_below:
  assumes "run ops init = Some s"
  shows "accn_below (resources s)"
proof -
  have "acpn_above (resources s) \<and> accn_below (resources s)"
  proof (rule run_invariant[OF assms, where I = "\<lambda>t. acpn_above (resources t) \<and> accn_below (resources t)"])
    show "acpn_above (resources init) \<and> accn_below (resources init)"
      by (simp add: acpn_above_def accn_below_def init_def node_at_def new_Resource_def)
  next
    fix op t t'
    assume "acpn_above (resources t) \<and> accn_below (resources t)" "exec op t = Some t'"
    then show "acpn_above (resources t') \<and> accn_below (resources t')" by (rule exec_shortcuts)
  qed
  then show ?thesis ..
qed

text \<open>In a reachable state a returning assignment grants the action to the role at the node
  itself.\<close>

lemma assign_grants_at_node:
  assumes "run ops init = Some s" and "n < length (resources s)"
    and pa: "permissionAssignment s n r a = Some s'"
  shows "canAccess s' r n a = Some True"
proof -
  have "run [Assign n r a] s = Some s'" using pa by (simp add: run_def)
  then have "run (ops @ [Assign n r a]) init = Some s'" using assms(1) by (simp add: run_append)
  then have "explicit_in_effective s'"
    using init_explicit_in_effective by (rule run_invariant) (rule exec_explicit_in_effective)
  moreover have "r \<in> set (get_roles (rwp (node_at (resources s') n)) a)"
    using permissionAssignment_rwp[OF pa, of n a] assms(2) by simp
  ultimately have "r \<in> set (get_roles (erwp (node_at (resources s') n)) a)"
    by (auto simp: explicit_in_effective_def)
  then show ?thesis unfolding canAccess_def by (subst canAccess_loop.simps) simp
qed

subsection \<open>Evaluations on small resource trees\<close>

text \<open>
  C1 (downward propagation) at the chain \<open>root \<rightarrow> a \<rightarrow> b\<close> (resources 0, 1, 2) with three
  unrelated roles: after \<open>assign(root, r0, X)\<close> and \<open>assign(b, r1, X)\<close>, the call
  \<open>assign(a, r2, X)\<close> is the first assignment at \<open>a\<close>. Its old boundary is \<open>root\<close>, the
  boundary \<open>b\<close> below it has \<open>acpn = null\<close>, which is not \<open>root\<close>, and nothing puts \<open>b\<close>
  into \<open>a.accn\<close>: the grant reaches neither \<open>b.erwp\<close> nor any node on \<open>b\<close>'s \<open>acpn\<close>
  chain, and \<open>canAccess(r2, b, X)\<close> is false although \<open>b\<close> is a child of \<open>a\<close>.
\<close>

theorem assign_misses_boundary_descendant:
  "Option.bind
     (run [NewResource, NewResource, NewResource, NewRole, NewRole, NewRole,
           AddChild 0 1, AddChild 1 2,
           Assign 0 0 ''X'', Assign 2 1 ''X'', Assign 1 2 ''X''] init)
     (\<lambda>s. canAccess s 2 2 ''X'') = Some False"
  by code_simp

text \<open>
  C2 (a node with explicit permissions never consults an ancestor) at \<open>a \<rightarrow> b\<close>
  (resources 0, 1): \<open>assign(b, r0, read)\<close>, then \<open>assign(a, r1, write)\<close>. The second call
  finds \<open>a.acpn = null\<close>, and the comparison \<open>node.acpn === originalAcpn\<close> holds at \<open>b\<close>
  (\<open>null === null\<close>), so \<open>b.acpn\<close> becomes \<open>a\<close>. Then \<open>canAccess(r1, b, write)\<close> is true,
  while \<open>write\<close> was never assigned at \<open>b\<close>, \<open>b.erwp\<close> has no entry for it and \<open>b.rwp\<close>
  is not empty: the answer comes from the ancestor \<open>a\<close>.
\<close>

theorem boundary_node_climbs_to_ancestor:
  "map_option
     (\<lambda>s. (canAccess s 1 1 ''write'',
           get_roles (erwp (node_at (resources s) 1)) ''write'',
           rwp (node_at (resources s) 1)))
     (run [NewResource, NewResource, NewRole, NewRole, AddChild 0 1,
           Assign 1 0 ''read'', Assign 0 1 ''write''] init)
   = Some (Some True, [], [(''read'', [0])])"
  by code_simp

text \<open>
  C3 (\<open>accn\<close> is exactly the set of nearest permission-bearing strict descendants) at the
  chain \<open>root \<rightarrow> a \<rightarrow> b\<close> after \<open>assign(root, r0, X)\<close>, \<open>assign(b, r1, X)\<close>,
  \<open>assign(a, r2, X)\<close>: all three nodes carry explicit permissions, \<open>root.accn\<close> is
  \<open>{b, a}\<close> (\<open>b\<close> is not nearest: \<open>a\<close> lies between) and \<open>a.accn\<close> is empty (\<open>b\<close> is
  missing).
\<close>

theorem accn_stale_and_incomplete:
  "map_option (\<lambda>s. map (\<lambda>x. (rwp x, accn x)) (resources s))
     (run [NewResource, NewResource, NewResource, NewRole, NewRole, NewRole,
           AddChild 0 1, AddChild 1 2,
           Assign 0 0 ''X'', Assign 2 1 ''X'', Assign 1 2 ''X''] init)
   = Some [([(''X'', [0])], [2, 1]), ([(''X'', [2])], []), ([(''X'', [1])], [])]"
  by code_simp

text \<open>
  C4 (\<open>acpn\<close> is a proper ancestor, and is \<open>null\<close> at a node with explicit permissions) at
  \<open>a \<rightarrow> b\<close> after \<open>assign(b, r0, read)\<close>, \<open>assign(a, r1, read)\<close>: \<open>b\<close> carries an explicit
  permission and \<open>b.acpn\<close> is \<open>a\<close>, not \<open>null\<close>.
\<close>

theorem boundary_node_has_acpn:
  "map_option (\<lambda>s. (rwp (node_at (resources s) 1), acpn (node_at (resources s) 1)))
     (run [NewResource, NewResource, NewRole, NewRole, AddChild 0 1,
           Assign 1 0 ''read'', Assign 0 1 ''read''] init)
   = Some ([(''read'', [0])], Some 0)"
  by code_simp

end
